theory Spec2Isabelle
  imports Complex_Main "HOL-Library.Log_Nat"
begin

section \<open>Python values\<close>

text \<open>
  The program is a Python script (app.py) built on Pillow and Streamlit.  Its geometry
  is computed with Python integers (unbounded, modelled as \<^typ>\<open>int\<close>; Python's
  floor division and modulo agree with \<^term>\<open>(div)\<close> and \<^term>\<open>(mod)\<close> on
  \<^typ>\<open>int\<close>) and with Python floats.  Every exception the script can raise is a
  value of \<^typ>\<open>'e + 'a\<close> with the error on the left.
\<close>

datatype value_error =
    BadFormat        \<comment> \<open>parse_size: the text does not split into two parts\<close>
  | InvalidLiteral   \<comment> \<open>int(): the text is not an integer literal\<close>
  | NotPositive      \<comment> \<open>parse_size: a width or height that is not positive\<close>
  | EmptySequence    \<comment> \<open>max() of an empty sequence\<close>
  | BadSize          \<comment> \<open>Pillow: a size or box it refuses\<close>

datatype py_error = ValueError value_error | ZeroDivisionError

definition bind_err :: "'e + 'a \<Rightarrow> ('a \<Rightarrow> 'e + 'b) \<Rightarrow> 'e + 'b" where
  "bind_err m f = (case m of Inl e \<Rightarrow> Inl e | Inr x \<Rightarrow> f x)"

subsection \<open>Floats\<close>

text \<open>
  A Python float is an IEEE 754 binary64 number.  It is modelled by the rational it
  denotes; every operation computes the exact rational result and rounds it to 53
  significant bits, ties to even (\<^verbatim>\<open>fl64\<close>).  The exponent range of binary64
  (overflow beyond 2^1024, gradual underflow below 2^-1022) is not modelled: the
  quotients and products of pixel counts computed here stay far inside it.
\<close>

definition pow2 :: "int \<Rightarrow> rat" where
  "pow2 e = power_int 2 e"

definition ilog2 :: "rat \<Rightarrow> int" where
  \<comment> \<open>the binary exponent of a non-zero rational: 2^(ilog2 x) <= |x| < 2^(ilog2 x + 1)\<close>
  "ilog2 x = (case quotient_of \<bar>x\<bar> of (p, q) \<Rightarrow>
     (let d = bitlen p - bitlen q in if pow2 d \<le> \<bar>x\<bar> then d else d - 1))"

definition py_round :: "rat \<Rightarrow> int" where
  \<comment> \<open>round(x) of a float with no digits argument: to the nearest integer, ties to even\<close>
  "py_round x = (let f = \<lfloor>x\<rfloor>; d = x - of_int f in
     if d < 1 / 2 then f else if 1 / 2 < d then f + 1 else if even f then f else f + 1)"

definition fl64 :: "rat \<Rightarrow> rat" where
  "fl64 x = (if x = 0 then 0 else
     (let e = ilog2 x - 52 in of_int (py_round (x / pow2 e)) * pow2 e))"

definition truediv :: "int \<Rightarrow> int \<Rightarrow> py_error + rat" where
  \<comment> \<open>a / b on two ints: the correctly rounded quotient\<close>
  "truediv a b = (if b = 0 then Inl ZeroDivisionError else Inr (fl64 (of_int a / of_int b)))"

definition float_of_int :: "int \<Rightarrow> rat" where
  "float_of_int n = fl64 (of_int n)"

definition int_times_float :: "int \<Rightarrow> rat \<Rightarrow> rat" where
  \<comment> \<open>n * s with n an int and s a float: n is converted, the product rounded\<close>
  "int_times_float n s = fl64 (float_of_int n * s)"

definition math_ceil :: "rat \<Rightarrow> int" where
  "math_ceil x = \<lceil>x\<rceil>"

definition py_max :: "int list \<Rightarrow> py_error + int" where
  \<comment> \<open>max(...) over a generator of ints\<close>
  "py_max xs = (case xs of [] \<Rightarrow> Inl (ValueError EmptySequence) | y # ys \<Rightarrow> Inr (fold max ys y))"

subsection \<open>Strings\<close>

text \<open>
  A text is a \<^typ>\<open>string\<close>: each \<^typ>\<open>char\<close> is one code point of the Latin-1
  range U+0000 .. U+00FF, which holds the letter x, its capital and the multiplication
  sign U+00D7.  In that range the decimal digits are 0 .. 9 only.  The interpreter's
  configurable limit on the length of a literal that int() reads is not modelled.
\<close>

definition mult_sign :: char where
  "mult_sign = char_of (215 :: nat)"

definition lower_char :: "char \<Rightarrow> char" where
  "lower_char c = (let n = (of_char c :: nat) in
     if (65 \<le> n \<and> n \<le> 90) \<or> (192 \<le> n \<and> n \<le> 222 \<and> n \<noteq> 215) then char_of (n + 32) else c)"

definition py_lower :: "string \<Rightarrow> string" where
  "py_lower s = map lower_char s"

definition py_replace :: "char \<Rightarrow> char \<Rightarrow> string \<Rightarrow> string" where
  "py_replace old new s = map (\<lambda>c. if c = old then new else c) s"

fun py_split :: "char \<Rightarrow> string \<Rightarrow> string list" where
  "py_split sep [] = [[]]"
| "py_split sep (c # cs) =
     (if c = sep then [] # py_split sep cs
      else (case py_split sep cs of p # ps \<Rightarrow> (c # p) # ps | [] \<Rightarrow> [[c]]))"

definition is_space :: "char \<Rightarrow> bool" where
  "is_space c = (let n = (of_char c :: nat) in
     (9 \<le> n \<and> n \<le> 13) \<or> (28 \<le> n \<and> n \<le> 32) \<or> n = 133 \<or> n = 160)"

definition py_strip :: "string \<Rightarrow> string" where
  "py_strip s = rev (dropWhile is_space (rev (dropWhile is_space s)))"

definition is_digit :: "char \<Rightarrow> bool" where
  "is_digit c = (let n = (of_char c :: nat) in 48 \<le> n \<and> n \<le> 57)"

definition digit_val :: "char \<Rightarrow> int" where
  "digit_val c = int (of_char c) - 48"

fun py_digits :: "int \<Rightarrow> string \<Rightarrow> int option" where
  \<comment> \<open>the rest of a decimal literal: digits, single underscores between digits\<close>
  "py_digits acc [] = Some acc"
| "py_digits acc [c] = (if is_digit c then Some (10 * acc + digit_val c) else None)"
| "py_digits acc (c # d # ds) =
     (if is_digit c then py_digits (10 * acc + digit_val c) (d # ds)
      else if c = CHR ''_'' \<and> is_digit d then py_digits (10 * acc + digit_val d) ds
      else None)"

definition py_literal :: "string \<Rightarrow> int option" where
  "py_literal s = (case s of [] \<Rightarrow> None
     | c # cs \<Rightarrow> if is_digit c then py_digits (digit_val c) cs else None)"

definition py_int :: "string \<Rightarrow> py_error + int" where
  \<comment> \<open>int(s): surrounding whitespace, an optional sign, a decimal literal\<close>
  "py_int s0 = (case
      (case py_strip s0 of [] \<Rightarrow> None
       | c # cs \<Rightarrow> if c = CHR ''-'' then map_option uminus (py_literal cs)
                  else if c = CHR ''+'' then py_literal cs
                  else py_literal (c # cs))
     of None \<Rightarrow> Inl (ValueError InvalidLiteral) | Some n \<Rightarrow> Inr n)"

section \<open>Pillow images\<close>

text \<open>
  An image is its size and its pixels.  Pillow's operations are modelled by what they
  return: \<^verbatim>\<open>Image.new\<close> a canvas of one colour, \<^verbatim>\<open>resize\<close> an image of
  the requested size whose pixels the resampling filter chooses (and the image itself
  when the size does not change), \<^verbatim>\<open>paste\<close> the canvas with the pasted image on
  top, clipped to the canvas, \<^verbatim>\<open>crop\<close> the box, with black wherever the box
  leaves the image.  A pixel is read only inside the image.
\<close>

type_synonym color = "nat \<times> nat \<times> nat"

record image =
  width :: int
  height :: int
  pixel :: "int \<Rightarrow> int \<Rightarrow> color"

type_synonym resample = "image \<Rightarrow> int \<times> int \<Rightarrow> int \<Rightarrow> int \<Rightarrow> color"

definition point_filter :: resample where
  \<comment> \<open>a filter that copies the source pixel at the scaled place; it stands for an entry of
     INTERP_MAP in the examples\<close>
  "point_filter img sz x y = pixel img (x * width img div fst sz) (y * height img div snd sz)"

definition image_size :: "image \<Rightarrow> int \<times> int" where
  "image_size img = (width img, height img)"

definition image_new :: "int \<times> int \<Rightarrow> color \<Rightarrow> py_error + image" where
  "image_new sz c = (if fst sz < 0 \<or> snd sz < 0 then Inl (ValueError BadSize)
     else Inr \<lparr>width = fst sz, height = snd sz, pixel = (\<lambda>x y. c)\<rparr>)"

definition solid :: "int \<Rightarrow> int \<Rightarrow> color \<Rightarrow> image" where
  \<comment> \<open>an image of one colour, as load_image may return it\<close>
  "solid w h c = \<lparr>width = w, height = h, pixel = (\<lambda>x y. c)\<rparr>"

definition image_resize :: "image \<Rightarrow> int \<times> int \<Rightarrow> resample \<Rightarrow> py_error + image" where
  "image_resize img sz interp =
     (if sz = image_size img then Inr img
      else if fst sz < 1 \<or> snd sz < 1 then Inl (ValueError BadSize)
      else Inr \<lparr>width = fst sz, height = snd sz, pixel = interp img sz\<rparr>)"

definition in_box :: "int \<times> int \<Rightarrow> int \<times> int \<Rightarrow> int \<Rightarrow> int \<Rightarrow> bool" where
  \<comment> \<open>the pixel (x, y) lies in the box with the given corner and size\<close>
  "in_box pos sz x y = (fst pos \<le> x \<and> x < fst pos + fst sz \<and> snd pos \<le> y \<and> y < snd pos + snd sz)"

definition image_paste :: "image \<Rightarrow> image \<Rightarrow> int \<times> int \<Rightarrow> image" where
  "image_paste canvas im pos = canvas\<lparr>pixel :=
     (\<lambda>x y. if in_box pos (image_size im) x y then pixel im (x - fst pos) (y - snd pos)
            else pixel canvas x y)\<rparr>"

definition image_crop :: "image \<Rightarrow> int \<times> int \<times> int \<times> int \<Rightarrow> py_error + image" where
  "image_crop img box = (case box of (left, upper, right, lower) \<Rightarrow>
     if right < left \<or> lower < upper then Inl (ValueError BadSize)
     else Inr \<lparr>width = right - left, height = lower - upper,
               pixel = (\<lambda>x y. if in_box (0, 0) (image_size img) (x + left) (y + upper)
                              then pixel img (x + left) (y + upper) else (0, 0, 0))\<rparr>)"

section \<open>Sizing: resize_by_long_or_short and resize_to_box\<close>

datatype edge_mode =
    LongEdge    \<comment> \<open>the radio option for the longest edge\<close>
  | ShortEdge   \<comment> \<open>any other mode string: the else branches\<close>

datatype fit_mode =
    PadToFit    \<comment> \<open>scale to fit, pad\<close>
  | CropToFill  \<comment> \<open>scale to fill, crop the centre\<close>
  | Stretch     \<comment> \<open>any other mode string: the else branch\<close>

definition scaled_size :: "int \<Rightarrow> int \<Rightarrow> rat \<Rightarrow> int \<times> int" where
  \<comment> \<open>nw, nh = max(1, int(round(w * scale))), max(1, int(round(h * scale)))\<close>
  "scaled_size w h scale =
     (max 1 (py_round (int_times_float w scale)), max 1 (py_round (int_times_float h scale)))"

definition resize_by_long_or_short ::
  "image \<Rightarrow> int \<Rightarrow> edge_mode \<Rightarrow> bool \<Rightarrow> bool \<Rightarrow> resample \<Rightarrow> py_error + image" where
  "resize_by_long_or_short img target mode keep_ratio no_upscale interp =
     (let w = width img; h = height img in
      if keep_ratio then
        bind_err (if mode = LongEdge then truediv target (max w h) else truediv target (min w h))
          (\<lambda>scale.
            if no_upscale \<and> 1 < scale then Inr img
            else image_resize img (scaled_size w h scale) interp)
      else
        (let (nw, nh) =
               (if mode = LongEdge then (if h \<le> w then (target, h) else (w, target))
                else (if w \<le> h then (target, h) else (w, target)));
             (nw, nh) = (if no_upscale then (min nw w, min nh h) else (nw, nh))
         in image_resize img (nw, nh) interp))"

definition resize_to_box ::
  "image \<Rightarrow> int \<Rightarrow> int \<Rightarrow> fit_mode \<Rightarrow> color \<Rightarrow> resample \<Rightarrow> bool \<Rightarrow> py_error + image" where
  "resize_to_box img tw th fit color interp no_upscale =
     (let w = width img; h = height img in
      case fit of
        PadToFit \<Rightarrow>
          bind_err (truediv tw w) (\<lambda>sw. bind_err (truediv th h) (\<lambda>sh.
            let scale = min sw sh;
                scale = (if no_upscale then min 1 scale else scale);
                (nw, nh) = scaled_size w h scale
            in bind_err (image_resize img (nw, nh) interp) (\<lambda>img2.
               bind_err (image_new (tw, th) color) (\<lambda>canvas.
                 Inr (image_paste canvas img2 ((tw - nw) div 2, (th - nh) div 2))))))
      | CropToFill \<Rightarrow>
          bind_err (truediv tw w) (\<lambda>sw. bind_err (truediv th h) (\<lambda>sh.
            let scale = max sw sh;
                scale = (if no_upscale then min 1 scale else scale);
                (nw, nh) = scaled_size w h scale
            in bind_err (image_resize img (nw, nh) interp) (\<lambda>img2.
                 let left = max 0 ((nw - tw) div 2);
                     top = max 0 ((nh - th) div 2)
                 in image_crop img2 (left, top, left + tw, top + th))))
      | Stretch \<Rightarrow>
          (let (tw, th) = (if no_upscale then (min tw w, min th h) else (tw, th))
           in image_resize img (tw, th) interp))"

text \<open>
  The specification's words for the result of the crop mode, "a centered crop of the
  uniformly-scaled source": the result is no larger than the source and each of its
  pixels is the source's pixel at the same place in the centred box.
\<close>

definition is_centered_crop :: "image \<Rightarrow> image \<Rightarrow> bool" where
  "is_centered_crop src out =
     (width out \<le> width src \<and> height out \<le> height src \<and>
      (\<forall>x\<in>{0..<width out}. \<forall>y\<in>{0..<height out}.
         pixel out x y = pixel src (x + (width src - width out) div 2)
                                   (y + (height src - height out) div 2)))"

section \<open>Size texts: parse_size and the two text fields\<close>

definition size_parts :: "string \<Rightarrow> string list" where
  \<comment> \<open>text.lower().replace(mult_sign, "x").split("x")\<close>
  "size_parts text = py_split CHR ''x'' (py_replace mult_sign CHR ''x'' (py_lower text))"

definition parse_size :: "string \<Rightarrow> py_error + int \<times> int" where
  "parse_size text =
     (let parts = size_parts text in
      if length parts \<noteq> 2 then Inl (ValueError BadFormat)
      else bind_err (py_int (py_strip (parts ! 0))) (\<lambda>w.
           bind_err (py_int (py_strip (parts ! 1))) (\<lambda>h.
             if w \<le> 0 \<or> h \<le> 0 then Inl (ValueError NotPositive) else Inr (w, h))))"

text \<open>
  The decimal text of a natural number, as a user types it (and as str() prints it):
  the input "of the form WIDTHxHEIGHT" is two of these around a separator.
\<close>

fun digits_of :: "nat \<Rightarrow> string" where
  "digits_of n = (if n < 10 then [char_of (48 + n)]
                  else digits_of (n div 10) @ [char_of (48 + n mod 10)])"

declare digits_of.simps [simp del]

definition decimal :: "int \<Rightarrow> string" where
  "decimal n = digits_of (nat n)"

text \<open>
  The sidebar reads two size texts, each inside a try block.  A field's model returns
  the size the script goes on with and the list of errors it shows with
  \<^verbatim>\<open>st.error\<close>.
\<close>

definition target_canvas_input :: "string \<Rightarrow> (int \<times> int) \<times> py_error list" where
  \<comment> \<open>try: tw, th = parse_size(box_str); except Exception as e: st.error(str(e)); tw, th = 1024, 768\<close>
  "target_canvas_input box_str =
     (case parse_size box_str of Inr sz \<Rightarrow> (sz, []) | Inl e \<Rightarrow> ((1024, 768), [e]))"

definition sheet_size_input :: "string \<Rightarrow> (int \<times> int) \<times> py_error list" where
  \<comment> \<open>try: sheet_w, sheet_h = parse_size(sheet_wh); except Exception: sheet_w, sheet_h = 2480, 3508\<close>
  "sheet_size_input sheet_wh =
     (case parse_size sheet_wh of Inr sz \<Rightarrow> (sz, []) | Inl e \<Rightarrow> ((2480, 3508), []))"

section \<open>The contact sheet\<close>

text \<open>
  The contact-sheet block of the script, as a function of the images entering the grid
  (\<^verbatim>\<open>imgs_for_grid\<close>, captions already drawn) and of the sidebar's values.  The
  result records the values the block computes and the sheet it shows.
\<close>

record contact_sheet_result =
  cell_w :: int
  cell_h :: int
  rows :: int
  sheet_W :: int
  sheet_H :: int
  too_small_warning :: bool
  offsets :: "(int \<times> int) list"
  sheet :: image

definition cell_origin :: "int \<Rightarrow> int \<Rightarrow> int \<Rightarrow> int \<Rightarrow> int \<Rightarrow> nat \<Rightarrow> int \<times> int" where
  \<comment> \<open>r = i // cols; c = i % cols; x = margin + c*(cell_w + grid_gap); y = margin + r*(cell_h + grid_gap)\<close>
  "cell_origin cols grid_gap margin cw ch i =
     (margin + (int i mod cols) * (cw + grid_gap), margin + (int i div cols) * (ch + grid_gap))"

definition centered_offset :: "int \<Rightarrow> int \<Rightarrow> int \<Rightarrow> int \<Rightarrow> int \<Rightarrow> nat \<Rightarrow> image \<Rightarrow> int \<times> int" where
  \<comment> \<open>ox = x + (cell_w - im.width)//2; oy = y + (cell_h - im.height)//2\<close>
  "centered_offset cols grid_gap margin cw ch i im =
     (fst (cell_origin cols grid_gap margin cw ch i) + (cw - width im) div 2,
      snd (cell_origin cols grid_gap margin cw ch i) + (ch - height im) div 2)"

definition paste_offset :: "int \<Rightarrow> int \<Rightarrow> int \<Rightarrow> int \<Rightarrow> int \<Rightarrow> nat \<Rightarrow> image \<Rightarrow> int \<times> int" where
  \<comment> \<open>if ox < 0 or oy < 0: ox, oy = x, y\<close>
  "paste_offset cols grid_gap margin cw ch i im =
     (let (ox, oy) = centered_offset cols grid_gap margin cw ch i im in
      if ox < 0 \<or> oy < 0 then cell_origin cols grid_gap margin cw ch i else (ox, oy))"

definition contact_sheet ::
  "image list \<Rightarrow> int \<Rightarrow> int \<Rightarrow> int \<Rightarrow> int option \<Rightarrow> int option \<Rightarrow> color
     \<Rightarrow> py_error + contact_sheet_result" where
  "contact_sheet imgs_for_grid cols grid_gap margin sheet_w sheet_h bg_rgb =
     bind_err (py_max (map width imgs_for_grid)) (\<lambda>cw.
     bind_err (py_max (map height imgs_for_grid)) (\<lambda>ch.
     bind_err (truediv (int (length imgs_for_grid)) cols) (\<lambda>q.
       let minW = margin * 2 + cols * cw + (cols - 1) * grid_gap;
           (W, H, rws, warn) =
             (case (sheet_w, sheet_h) of
                (Some sw, Some sh) \<Rightarrow>
                  (let rws = max 1 (math_ceil q);
                       minH = margin * 2 + rws * ch + (rws - 1) * grid_gap
                   in (sw, sh, rws, sw < minW \<or> sh < minH))
              | _ \<Rightarrow>
                  (let rws = math_ceil q
                   in (minW, margin * 2 + rws * ch + (rws - 1) * grid_gap, rws, False)));
           offs = map (\<lambda>(i, im). paste_offset cols grid_gap margin cw ch i im)
                    (enumerate 0 imgs_for_grid)
       in bind_err (image_new (W, H) bg_rgb) (\<lambda>sheet0.
            Inr \<lparr>cell_w = cw, cell_h = ch, rows = rws, sheet_W = W, sheet_H = H,
                 too_small_warning = warn, offsets = offs,
                 sheet = fold (\<lambda>(im, pos) s. image_paste s im pos) (zip imgs_for_grid offs) sheet0\<rparr>))))"

section \<open>Properties of the float model\<close>

lemma pow2_pos: "0 < pow2 e"
  by (simp add: pow2_def)

lemma pow2_add: "pow2 (a + b) = pow2 a * pow2 b"
  by (simp add: pow2_def power_int_add)

lemma pow2_nat: "0 \<le> e \<Longrightarrow> pow2 e = of_int (2 ^ nat e)"
  by (simp add: pow2_def power_int_def)

lemma pow2_mono: "a \<le> b \<Longrightarrow> pow2 a \<le> pow2 b"
  by (simp add: pow2_def power_int_increasing)

lemma pow2_less_cancel: "pow2 a < pow2 b \<Longrightarrow> a < b"
  using pow2_mono [of b a] by (cases "a < b") auto

lemma bitlen_pow2_bounds:
  assumes "0 < n"
  shows "pow2 (bitlen n - 1) \<le> of_int n" and "of_int n < pow2 (bitlen n)"
proof -
  from assms have b: "1 \<le> bitlen n"
    using bitlen_eq_zero_iff [of n] bitlen_nonneg [of n] by linarith
  from bitlen_bounds [OF assms]
  have lo: "2 ^ nat (bitlen n - 1) \<le> n" and hi: "n < 2 ^ nat (bitlen n)" by simp_all
  from lo have "rat_of_int (2 ^ nat (bitlen n - 1)) \<le> of_int n"
    by (rule of_int_le_iff [THEN iffD2])
  with b show "pow2 (bitlen n - 1) \<le> of_int n" by (simp add: pow2_nat)
  from hi have "rat_of_int n < of_int (2 ^ nat (bitlen n))"
    by (rule of_int_less_iff [THEN iffD2])
  with b show "of_int n < pow2 (bitlen n)" by (simp add: pow2_nat)
qed

lemma ilog2_bounds:
  assumes "x \<noteq> 0"
  shows "pow2 (ilog2 x) \<le> \<bar>x\<bar>" and "\<bar>x\<bar> < pow2 (ilog2 x + 1)"
proof -
  obtain p q where pq: "quotient_of \<bar>x\<bar> = (p, q)" by (cases "quotient_of \<bar>x\<bar>")
  then have q: "0 < q" and x: "\<bar>x\<bar> = of_int p / of_int q"
    by (rule quotient_of_denom_pos, rule quotient_of_div)
  from assms have "0 < \<bar>x\<bar>" by simp
  with x q have p: "0 < p" by (simp add: zero_less_divide_iff)
  define d where "d = bitlen p - bitlen q"
  have qr: "(0::rat) < of_int q" using q by simp
  have up: "\<bar>x\<bar> < pow2 (d + 1)"
  proof -
    have "of_int p < pow2 (bitlen p)" by (rule bitlen_pow2_bounds [OF p])
    also have "pow2 (bitlen p) = pow2 (d + 1) * pow2 (bitlen q - 1)"
      by (simp add: d_def pow2_add [symmetric])
    also have "\<dots> \<le> pow2 (d + 1) * of_int q"
      using bitlen_pow2_bounds(1) [OF q] pow2_pos [of "d + 1"] by simp
    finally have "rat_of_int p / of_int q < pow2 (d + 1)"
      using qr by (simp add: pos_divide_less_eq)
    with x show ?thesis by simp
  qed
  have lo: "pow2 (d - 1) \<le> \<bar>x\<bar>"
  proof -
    have "pow2 (d - 1) * of_int q \<le> pow2 (d - 1) * pow2 (bitlen q)"
      using bitlen_pow2_bounds(2) [OF q] pow2_pos [of "d - 1"] by simp
    also have "\<dots> = pow2 (bitlen p - 1)"
      by (simp add: d_def pow2_add [symmetric])
    also have "\<dots> \<le> of_int p" by (rule bitlen_pow2_bounds [OF p])
    finally have "pow2 (d - 1) \<le> rat_of_int p / of_int q"
      using qr by (simp add: pos_le_divide_eq)
    with x show ?thesis by simp
  qed
  have il: "ilog2 x = (if pow2 d \<le> \<bar>x\<bar> then d else d - 1)"
    by (simp add: ilog2_def pq d_def Let_def)
  show "pow2 (ilog2 x) \<le> \<bar>x\<bar>" using lo by (simp add: il)
  show "\<bar>x\<bar> < pow2 (ilog2 x + 1)" using up by (auto simp add: il)
qed

lemma py_round_error: "\<bar>of_int (py_round y) - y\<bar> \<le> 1 / 2"
proof -
  have "0 \<le> y - of_int \<lfloor>y\<rfloor>" "y - of_int \<lfloor>y\<rfloor> < 1" by linarith+
  then show ?thesis
    by (auto simp add: py_round_def Let_def abs_le_iff)
qed

lemma py_round_of_int: "py_round (of_int n) = n"
  by (simp add: py_round_def)

lemma py_round_ge: "of_int n \<le> y \<Longrightarrow> n \<le> py_round y"
proof -
  assume "of_int n \<le> y"
  then have "n \<le> \<lfloor>y\<rfloor>" by (simp add: le_floor_iff)
  moreover have "\<lfloor>y\<rfloor> \<le> py_round y" by (simp add: py_round_def Let_def)
  ultimately show ?thesis by simp
qed

lemma fl64_error:
  assumes "x \<noteq> 0"
  shows "\<bar>fl64 x - x\<bar> \<le> \<bar>x\<bar> / 2 ^ 53"
proof -
  define e where "e = ilog2 x - 52"
  define y where "y = x / pow2 e"
  have pe: "0 < pow2 e" by (rule pow2_pos)
  have fx: "fl64 x = of_int (py_round y) * pow2 e"
    using assms by (simp add: fl64_def e_def y_def Let_def)
  have xy: "x = y * pow2 e" using pe by (simp add: y_def)
  have "fl64 x - x = (of_int (py_round y) - y) * pow2 e"
    by (simp add: fx xy [symmetric] algebra_simps)
  then have "\<bar>fl64 x - x\<bar> = \<bar>of_int (py_round y) - y\<bar> * pow2 e"
    using pe by (simp add: abs_mult)
  also have "\<dots> \<le> (1 / 2) * pow2 e"
    using py_round_error [of y] pe by (simp add: mult_right_mono)
  also have "pow2 e = pow2 (ilog2 x) * pow2 (- 52)"
    by (simp add: e_def pow2_add [symmetric])
  also have "pow2 (- 52) = 1 / 2 ^ 52" by (simp add: pow2_def power_int_minus_divide)
  also have "(1 / 2) * (pow2 (ilog2 x) * (1 / 2 ^ 52)) = pow2 (ilog2 x) / 2 ^ 53" by simp
  also have "\<dots> \<le> \<bar>x\<bar> / 2 ^ 53"
    using ilog2_bounds(1) [OF assms] by (simp add: divide_right_mono)
  finally show ?thesis .
qed

lemma fl64_ge_pow2:
  assumes "0 < x"
  shows "pow2 (ilog2 x) \<le> fl64 x"
proof -
  define e where "e = ilog2 x - 52"
  define y where "y = x / pow2 e"
  have pe: "0 < pow2 e" by (rule pow2_pos)
  from assms have x0: "x \<noteq> 0" by simp
  have fx: "fl64 x = of_int (py_round y) * pow2 e"
    using x0 by (simp add: fl64_def e_def y_def Let_def)
  have "pow2 52 * pow2 e = pow2 (ilog2 x)"
    by (simp add: e_def pow2_add [symmetric])
  also have "\<dots> \<le> x" using ilog2_bounds(1) [OF x0] assms by simp
  finally have "pow2 52 \<le> y" using pe by (simp add: y_def pos_le_divide_eq)
  then have "rat_of_int (2 ^ 52) \<le> y" by (simp add: pow2_def)
  then have "2 ^ 52 \<le> py_round y" by (rule py_round_ge)
  then have "rat_of_int (2 ^ 52) \<le> of_int (py_round y)"
    by (rule of_int_le_iff [THEN iffD2])
  then have "pow2 52 \<le> of_int (py_round y)" by (simp add: pow2_def)
  then have "pow2 52 * pow2 e \<le> of_int (py_round y) * pow2 e"
    using pe by (simp add: mult_right_mono)
  then show ?thesis
    by (simp add: fx e_def pow2_add [symmetric])
qed

lemma fl64_ge_one:
  assumes "1 \<le> x"
  shows "1 \<le> fl64 x"
proof -
  from assms have x0: "x \<noteq> 0" and xp: "0 < x" by simp_all
  have "pow2 0 \<le> \<bar>x\<bar>" using assms by (simp add: pow2_def)
  also have "\<dots> < pow2 (ilog2 x + 1)" by (rule ilog2_bounds(2) [OF x0])
  finally have "0 \<le> ilog2 x" using pow2_less_cancel [of 0 "ilog2 x + 1"] by simp
  then have "pow2 0 \<le> pow2 (ilog2 x)" by (rule pow2_mono)
  also have "\<dots> \<le> fl64 x" by (rule fl64_ge_pow2 [OF xp])
  finally show ?thesis by (simp add: pow2_def)
qed

lemma fl64_of_int:
  assumes "0 \<le> k" and "k < 2 ^ 53"
  shows "fl64 (of_int k) = of_int k"
proof (cases "k = 0")
  case True
  then show ?thesis by (simp add: fl64_def)
next
  case False
  with assms have kp: "0 < k" by simp
  define x where "x = rat_of_int k"
  have x0: "x \<noteq> 0" using kp by (simp add: x_def)
  define e where "e = ilog2 x - 52"
  have "pow2 (ilog2 x) \<le> \<bar>x\<bar>" by (rule ilog2_bounds(1) [OF x0])
  also have "\<bar>x\<bar> = rat_of_int k" using kp by (simp add: x_def)
  also have "rat_of_int k < of_int (2 ^ 53)"
    using assms(2) by (rule of_int_less_iff [THEN iffD2])
  also have "rat_of_int (2 ^ 53) = pow2 53" by (simp add: pow2_def)
  finally have "ilog2 x < 53" by (rule pow2_less_cancel)
  then have e: "0 \<le> - e" by (simp add: e_def)
  have "pow2 (e + - e) = pow2 e * pow2 (- e)" by (rule pow2_add)
  then have "pow2 e * pow2 (- e) = 1" by (simp add: pow2_def)
  then have inv: "1 / pow2 e = pow2 (- e)"
    using pow2_pos [of e] by (simp add: field_simps)
  have "x / pow2 e = x * (1 / pow2 e)" by simp
  also have "\<dots> = x * pow2 (- e)" by (simp only: inv)
  also have "\<dots> = of_int (k * 2 ^ nat (- e))"
    using e by (simp add: x_def pow2_nat)
  finally have y: "x / pow2 e = of_int (k * 2 ^ nat (- e))" .
  have "fl64 x = of_int (py_round (x / pow2 e)) * pow2 e"
    using x0 by (simp add: fl64_def e_def Let_def)
  also have "\<dots> = of_int (k * 2 ^ nat (- e)) * pow2 e"
    by (simp only: y py_round_of_int)
  also have "\<dots> = x / pow2 e * pow2 e" by (simp only: y)
  also have "\<dots> = x" using pow2_pos [of e] by simp
  finally show ?thesis by (simp add: x_def)
qed


lemma truediv_Inr: "b \<noteq> 0 \<Longrightarrow> truediv a b = Inr (fl64 (of_int a / of_int b))"
  by (simp add: truediv_def)

section \<open>Properties of the image operations\<close>

lemma image_resize_size:
  assumes "1 \<le> fst sz" and "1 \<le> snd sz"
  shows "\<exists>out. image_resize img sz interp = Inr out \<and> image_size out = sz"
  using assms by (cases sz) (auto simp add: image_resize_def image_size_def)

lemma scaled_size_ge_1: "1 \<le> fst (scaled_size w h s)" "1 \<le> snd (scaled_size w h s)"
  by (simp_all add: scaled_size_def)

lemma scaled_size_800_600: "scaled_size 800 600 (fl64 (1 / 2)) = (400, 300)"
  by code_simp

lemma scaled_size_600_800: "scaled_size 600 800 (fl64 (1 / 2)) = (300, 400)"
  by code_simp

lemma image_new_Inr: "0 \<le> w \<Longrightarrow> 0 \<le> h \<Longrightarrow> image_new (w, h) c = Inr (solid w h c)"
  by (simp add: image_new_def solid_def)

lemma image_paste_simps:
  "width (image_paste canvas im pos) = width canvas"
  "height (image_paste canvas im pos) = height canvas"
  "pixel (image_paste canvas im pos) x y =
     (if in_box pos (image_size im) x y then pixel im (x - fst pos) (y - snd pos)
      else pixel canvas x y)"
  by (simp_all add: image_paste_def)

lemma solid_simps: "width (solid w h c) = w" "height (solid w h c) = h" "pixel (solid w h c) x y = c"
  by (simp_all add: solid_def)

lemma half_margin: "0 \<le> (a - b) - 2 * ((a - b) div 2)" "(a - b) - 2 * ((a - b) div 2) \<le> 1" for a b :: int
  by presburger+

lemma scaled_size_1000_500: "scaled_size 1000 500 (min (fl64 (1 / 2)) (fl64 1)) = (500, 250)"
  by code_simp

lemma image_crop_Inr:
  assumes "0 \<le> tw" and "0 \<le> th"
  shows "image_crop img (left, upper, left + tw, upper + th) =
     Inr \<lparr>width = tw, height = th,
          pixel = (\<lambda>x y. if in_box (0, 0) (image_size img) (x + left) (y + upper)
                         then pixel img (x + left) (y + upper) else (0, 0, 0))\<rparr>"
  using assms by (simp add: image_crop_def)

lemma py_round_gt_half:
  assumes "of_int n - 1 / 2 < y"
  shows "n \<le> py_round y"
proof -
  from py_round_error [of y] have "y - 1 / 2 \<le> of_int (py_round y)"
    by linarith
  with assms have "rat_of_int n - 1 < of_int (py_round y)" by linarith
  then have "rat_of_int (n - 1) < of_int (py_round y)" by simp
  then have "n - 1 < py_round y" by (simp only: of_int_less_iff)
  then show ?thesis by simp
qed

lemma fl64_lower:
  assumes "0 < x"
  shows "x - x / 2 ^ 53 \<le> fl64 x"
proof -
  from assms have "x \<noteq> 0" by simp
  from fl64_error [OF this] assms have "\<bar>fl64 x - x\<bar> \<le> x / 2 ^ 53" by simp
  then show ?thesis by linarith
qed

text \<open>
  Scaling a side w by a factor that is at least the float quotient t / w gives at least
  t pixels, as long as w is a float and t is below 2^51.
\<close>

lemma scaled_side_covers:
  assumes w: "0 < w" "w < 2 ^ 53" and t: "0 < t" "t < 2 ^ 51"
    and s: "fl64 (of_int t / of_int w) \<le> s"
  shows "t \<le> max 1 (py_round (int_times_float w s))"
proof -
  define e :: rat where "e = 1 / 2 ^ 53"
  define q :: rat where "q = of_int t / of_int w"
  have wr: "(0::rat) < of_int w" and tr: "(0::rat) < of_int t" using w t by simp_all
  have q0: "0 < q" using wr tr by (simp add: q_def)
  have e0: "0 \<le> e" "e \<le> 1" by (simp_all add: e_def)
  have "q - q * e \<le> fl64 q" using fl64_lower [OF q0] by (simp add: e_def)
  moreover have "fl64 q \<le> s" using s by (simp only: q_def)
  moreover have "q * (1 - e) = q - q * e" by (simp add: algebra_simps)
  ultimately have s1: "q * (1 - e) \<le> s" by linarith
  have fw: "float_of_int w = of_int w"
    using w by (simp add: float_of_int_def fl64_of_int)
  define x where "x = of_int w * s"
  have "of_int w * (q * (1 - e)) \<le> x"
    unfolding x_def using s1 wr by (simp only: mult_le_cancel_left_pos)
  moreover have "of_int w * q = of_int t" using wr by (simp add: q_def)
  ultimately have x1: "of_int t * (1 - e) \<le> x" by (simp add: mult.assoc [symmetric])
  have "0 < rat_of_int t * (1 - e)" using tr by (simp add: e_def)
  with x1 have x0: "0 < x" by simp
  have "x - x * e \<le> fl64 x" using fl64_lower [OF x0] by (simp add: e_def)
  then have f1: "x * (1 - e) \<le> fl64 x" by (simp add: algebra_simps)
  have "of_int t * (1 - e) * (1 - e) \<le> x * (1 - e)"
    using x1 e0 by (simp add: mult_right_mono)
  with f1 have f2: "of_int t * ((1 - e) * (1 - e)) \<le> fl64 x" by (simp add: mult.assoc)
  have "1 - 2 * e \<le> (1 - e) * (1 - e)" by (simp add: algebra_simps)
  with tr have "of_int t * (1 - 2 * e) \<le> of_int t * ((1 - e) * (1 - e))"
    by (simp only: mult_le_cancel_left_pos)
  with f2 have f3: "of_int t - of_int t * (2 * e) \<le> fl64 x" by (simp add: algebra_simps)
  have "rat_of_int t < of_int (2 ^ 51)" using t(2) by (simp only: of_int_less_iff)
  then have "rat_of_int t * (2 * e) < 2 ^ 51 * (2 * e)" by (simp add: e_def)
  also have "(2::rat) ^ 51 * (2 * e) = 1 / 2" by (simp add: e_def)
  finally have "of_int t - 1 / 2 < fl64 x" using f3 by simp
  then have "t \<le> py_round (fl64 x)" by (rule py_round_gt_half)
  then show ?thesis by (simp add: int_times_float_def fw x_def)
qed

lemma py_round_le:
  assumes "y \<le> of_int n"
  shows "py_round y \<le> n"
proof -
  from py_round_error [of y] have "rat_of_int (py_round y) \<le> y + 1 / 2" by linarith
  with assms have "rat_of_int (py_round y) < of_int n + 1" by linarith
  then have "rat_of_int (py_round y) < of_int (n + 1)" by simp
  then have "py_round y < n + 1" by (simp only: of_int_less_iff)
  then show ?thesis by simp
qed

lemma fl64_pos:
  assumes "0 < x"
  shows "0 < fl64 x"
proof -
  have "0 < pow2 (ilog2 x)" by (rule pow2_pos)
  also have "\<dots> \<le> fl64 x" by (rule fl64_ge_pow2 [OF assms])
  finally show ?thesis .
qed

lemma pow2_inverse: "x / pow2 e = x * pow2 (- e)"
proof -
  have "pow2 (e + - e) = pow2 e * pow2 (- e)" by (rule pow2_add)
  then have "pow2 e * pow2 (- e) = 1" by (simp add: pow2_def)
  then have "1 / pow2 e = pow2 (- e)"
    using pow2_pos [of e] by (simp add: field_simps)
  moreover have "x / pow2 e = x * (1 / pow2 e)" by simp
  ultimately show ?thesis by simp
qed

text \<open>Rounding does not pass an integer that is a float.\<close>

lemma fl64_le_int:
  assumes x: "0 < x" "x \<le> of_int k" and k: "k < 2 ^ 53"
  shows "fl64 x \<le> of_int k"
proof -
  from x have x0: "x \<noteq> 0" by simp
  define e where "e = ilog2 x - 52"
  have pe: "0 < pow2 e" by (rule pow2_pos)
  have "pow2 (ilog2 x) \<le> \<bar>x\<bar>" by (rule ilog2_bounds(1) [OF x0])
  also have "\<bar>x\<bar> \<le> rat_of_int k" using x by simp
  also have "rat_of_int k < of_int (2 ^ 53)" using k by (simp only: of_int_less_iff)
  also have "rat_of_int (2 ^ 53) = pow2 53" by (simp add: pow2_def)
  finally have "ilog2 x < 53" by (rule pow2_less_cancel)
  then have e: "0 \<le> - e" by (simp add: e_def)
  have "x / pow2 e \<le> rat_of_int k / pow2 e"
    using x(2) pe by (simp add: divide_right_mono)
  also have "rat_of_int k / pow2 e = rat_of_int k * pow2 (- e)" by (rule pow2_inverse)
  also have "\<dots> = of_int (k * 2 ^ nat (- e))" using e by (simp add: pow2_nat)
  finally have "py_round (x / pow2 e) \<le> k * 2 ^ nat (- e)" by (rule py_round_le)
  then have "rat_of_int (py_round (x / pow2 e)) \<le> of_int (k * 2 ^ nat (- e))"
    by (simp only: of_int_le_iff)
  also have "rat_of_int (k * 2 ^ nat (- e)) = rat_of_int k * pow2 (- e)"
    using e by (simp add: pow2_nat)
  finally have "rat_of_int (py_round (x / pow2 e)) * pow2 e \<le> rat_of_int k * pow2 (- e) * pow2 e"
    using pe by (simp only: mult_le_cancel_right_pos)
  also have "rat_of_int k * pow2 (- e) * pow2 e = rat_of_int k / pow2 e * pow2 e"
    by (simp only: pow2_inverse)
  also have "\<dots> = rat_of_int k" using pe by simp
  finally show ?thesis using x0 by (simp add: fl64_def e_def Let_def)
qed

lemma fl64_le_one: "0 < x \<Longrightarrow> x \<le> 1 \<Longrightarrow> fl64 x \<le> 1"
  using fl64_le_int [of x 1] by simp

text \<open>
  Scaling a side w by a positive factor of at most 1.0 gives at most w pixels, as long
  as w is a float.
\<close>

lemma scaled_side_le:
  assumes w: "0 < w" "w < 2 ^ 53" and s: "0 < s" "s \<le> 1"
  shows "max 1 (py_round (int_times_float w s)) \<le> w"
proof -
  have fw: "float_of_int w = of_int w"
    using w by (simp add: float_of_int_def fl64_of_int)
  have wr: "(0::rat) < of_int w" using w by simp
  have "0 < rat_of_int w * s" using wr s by simp
  moreover have "rat_of_int w * s \<le> of_int w * 1"
    using wr s by (simp only: mult_le_cancel_left_pos)
  then have "rat_of_int w * s \<le> of_int w" by simp
  ultimately have "fl64 (rat_of_int w * s) \<le> of_int w" using w(2) by (rule fl64_le_int)
  then have "py_round (fl64 (rat_of_int w * s)) \<le> w" by (rule py_round_le)
  with w show ?thesis by (simp add: int_times_float_def fw)
qed


lemma scaled_size_unit:
  assumes "0 < w" "w < 2 ^ 53" "0 < h" "h < 2 ^ 53"
  shows "scaled_size w h 1 = (w, h)"
  using assms
  by (simp add: scaled_size_def int_times_float_def float_of_int_def fl64_of_int py_round_of_int)

lemma scaled_size_1_1: "scaled_size 1 1 (min 1 (fl64 2)) = (1, 1)"
  by code_simp

section \<open>Properties of parse_size\<close>

lemma neq_by_code: "(of_char c :: nat) \<noteq> of_char c' \<Longrightarrow> c \<noteq> c'"
  by auto

lemma digit_char_props:
  assumes "d < 10"
  shows "is_digit (char_of (48 + d))" and "digit_val (char_of (48 + d)) = int d"
    and "\<not> is_space (char_of (48 + d))" and "lower_char (char_of (48 + d)) = char_of (48 + d)"
    and "char_of (48 + d) \<noteq> mult_sign" and "char_of (48 + d) \<noteq> CHR ''x''"
    and "char_of (48 + d) \<noteq> CHR ''-''" and "char_of (48 + d) \<noteq> CHR ''+''"
proof -
  have oc: "(of_char (char_of (48 + d) :: char) :: nat) = 48 + d" using assms by simp
  show "is_digit (char_of (48 + d))" and "digit_val (char_of (48 + d)) = int d"
    and "\<not> is_space (char_of (48 + d))" and "lower_char (char_of (48 + d)) = char_of (48 + d)"
    using assms by (simp_all add: is_digit_def digit_val_def is_space_def lower_char_def Let_def)
  show "char_of (48 + d) \<noteq> mult_sign" and "char_of (48 + d) \<noteq> CHR ''x''"
    and "char_of (48 + d) \<noteq> CHR ''-''" and "char_of (48 + d) \<noteq> CHR ''+''"
    using assms by (auto intro!: neq_by_code simp add: oc mult_sign_def simp del: of_char_of)
qed

lemma digits_of_plain: "\<forall>c\<in>set (digits_of n). is_digit c \<and> \<not> is_space c \<and> lower_char c = c \<and>
    c \<noteq> mult_sign \<and> c \<noteq> CHR ''x'' \<and> c \<noteq> CHR ''-'' \<and> c \<noteq> CHR ''+''"
proof (induction n rule: digits_of.induct)
  case (1 n)
  show ?case
  proof (cases "n < 10")
    case True
    then show ?thesis by (subst digits_of.simps) (simp add: digit_char_props)
  next
    case False
    have "n mod 10 < 10" by simp
    with False 1 show ?thesis
      by (subst digits_of.simps) (simp add: digit_char_props)
  qed
qed

lemma digits_of_nonempty: "digits_of n \<noteq> []"
  by (subst digits_of.simps) simp

lemma py_digits_foldl:
  "\<forall>c\<in>set ds. is_digit c \<Longrightarrow>
     py_digits acc ds = Some (foldl (\<lambda>a c. 10 * a + digit_val c) acc ds)"
  by (induction acc ds rule: py_digits.induct) simp_all

lemma digits_of_value: "foldl (\<lambda>a c. 10 * a + digit_val c) 0 (digits_of n) = int n"
proof (induction n rule: digits_of.induct)
  case (1 n)
  show ?case
  proof (cases "n < 10")
    case True
    then show ?thesis by (subst digits_of.simps) (simp add: digit_char_props)
  next
    case False
    have "n mod 10 < 10" by simp
    then have "digit_val (char_of (48 + n mod 10)) = int (n mod 10)" by (rule digit_char_props)
    with False 1 show ?thesis
      by (subst digits_of.simps) (simp add: zmod_int zdiv_int)
  qed
qed

lemma py_literal_digits: "py_literal (digits_of n) = Some (int n)"
proof (cases "digits_of n")
  case Nil
  with digits_of_nonempty show ?thesis by blast
next
  case (Cons c cs)
  with digits_of_plain [of n] have c: "is_digit c" and cs: "\<forall>c\<in>set cs. is_digit c" by simp_all
  have "py_digits (digit_val c) cs = Some (foldl (\<lambda>a c. 10 * a + digit_val c) 0 (c # cs))"
    using cs by (simp add: py_digits_foldl)
  also have "foldl (\<lambda>a c. 10 * a + digit_val c) 0 (c # cs) = int n"
    unfolding Cons [symmetric] by (rule digits_of_value)
  finally show ?thesis using c by (simp add: py_literal_def Cons)
qed

lemma py_strip_no_space: "\<forall>c\<in>set s. \<not> is_space c \<Longrightarrow> py_strip s = s"
proof -
  have dw: "dropWhile is_space t = t" if "\<forall>c\<in>set t. \<not> is_space c" for t
    using that by (cases t) simp_all
  assume a: "\<forall>c\<in>set s. \<not> is_space c"
  then have "dropWhile is_space (rev (dropWhile is_space s)) = rev s"
    by (simp add: dw)
  then show ?thesis by (simp add: py_strip_def)
qed

lemma py_strip_digits: "py_strip (digits_of n) = digits_of n"
  using digits_of_plain [of n] by (intro py_strip_no_space) simp

lemma py_int_digits: "py_int (digits_of n) = Inr (int n)"
proof (cases "digits_of n")
  case Nil
  with digits_of_nonempty show ?thesis by blast
next
  case (Cons c cs)
  with digits_of_plain [of n] have "c \<noteq> CHR ''-''" "c \<noteq> CHR ''+''" by simp_all
  moreover have "py_strip (c # cs) = c # cs" using py_strip_digits [of n] by (simp add: Cons)
  ultimately have "py_int (digits_of n) = (case py_literal (digits_of n) of
      None \<Rightarrow> Inl (ValueError InvalidLiteral) | Some k \<Rightarrow> Inr k)"
    by (simp add: py_int_def Cons)
  then show ?thesis by (simp add: py_literal_digits)
qed

lemma py_split_no_sep: "sep \<notin> set a \<Longrightarrow> py_split sep a = [a]"
  by (induction a) auto

lemma py_split_at_sep: "sep \<notin> set a \<Longrightarrow> py_split sep (a @ sep # b) = a # py_split sep b"
  by (induction a) auto

lemma lower_seps: "lower_char CHR ''x'' = CHR ''x''" "lower_char CHR ''X'' = CHR ''x''"
  "lower_char mult_sign = mult_sign" "mult_sign \<noteq> CHR ''x''"
  by code_simp+

lemma size_parts_decimal:
  assumes "sep = CHR ''x'' \<or> sep = CHR ''X'' \<or> sep = mult_sign"
  shows "size_parts (digits_of m @ sep # digits_of n) = [digits_of m, digits_of n]"
proof -
  have low: "py_lower (digits_of k) = digits_of k" for k
    using digits_of_plain [of k] unfolding py_lower_def by (intro map_idI) simp
  have rep: "py_replace mult_sign CHR ''x'' (digits_of k) = digits_of k" for k
    using digits_of_plain [of k] unfolding py_replace_def by (intro map_idI) simp
  have nx: "CHR ''x'' \<notin> set (digits_of k)" for k
    using digits_of_plain [of k] by blast
  have s: "(if lower_char sep = mult_sign then CHR ''x'' else lower_char sep) = CHR ''x''"
    using assms lower_seps by auto
  have "py_replace mult_sign CHR ''x'' (py_lower (digits_of m @ sep # digits_of n))
      = digits_of m @ CHR ''x'' # digits_of n"
    using s rep low by (simp add: py_lower_def py_replace_def)
  then show ?thesis
    by (simp add: size_parts_def py_split_at_sep py_split_no_sep nx)
qed

lemma parse_size_decimal:
  assumes "0 < w" and "0 < h" and "sep = CHR ''x'' \<or> sep = CHR ''X'' \<or> sep = mult_sign"
  shows "parse_size (decimal w @ [sep] @ decimal h) = Inr (w, h)"
  using assms(1,2)
  by (simp add: parse_size_def decimal_def size_parts_decimal [OF assms(3)] py_strip_digits
      py_int_digits bind_err_def)

lemma parse_size_cases:
  "parse_size text = Inr (w, h) \<longleftrightarrow>
     (\<exists>a b. size_parts text = [a, b] \<and> py_int (py_strip a) = Inr w \<and>
            py_int (py_strip b) = Inr h \<and> 0 < w \<and> 0 < h)"
proof (cases "size_parts text")
  case Nil
  then show ?thesis by (simp add: parse_size_def)
next
  case (Cons a r)
  show ?thesis
  proof (cases r)
    case Nil
    with Cons show ?thesis by (simp add: parse_size_def)
  next
    case (Cons b r')
    with \<open>size_parts text = a # r\<close> show ?thesis
      by (cases r'; cases "py_int (py_strip a)"; cases "py_int (py_strip b)")
        (auto simp add: parse_size_def bind_err_def)
  qed
qed

lemma py_int_error: "py_int s = Inl e \<Longrightarrow> e = ValueError InvalidLiteral"
  by (auto simp add: py_int_def split: option.splits)

section \<open>Properties of the contact sheet\<close>

lemma fold_max_Max: "fold max ys y = Max (set (y # ys))" for y :: int
  by (simp only: Max.set_eq_fold)

lemma py_max_Inr_iff: "py_max xs = Inr m \<longleftrightarrow> xs \<noteq> [] \<and> m = Max (set xs)"
proof (cases xs)
  case Nil
  then show ?thesis by (simp add: py_max_def)
next
  case (Cons y ys)
  have "py_max (y # ys) = Inr (Max (set (y # ys)))"
    by (simp only: py_max_def list.case fold_max_Max)
  with Cons show ?thesis by auto
qed

lemma py_max_Inr: "xs \<noteq> [] \<Longrightarrow> py_max xs = Inr (Max (set xs))"
  by (simp add: py_max_Inr_iff)

text \<open>
  The float quotient of two ints has the ceiling of the exact quotient, as long as the
  numerator is a float: below 2^53.
\<close>

lemma ceil_truediv:
  assumes n: "0 \<le> n" "n < 2 ^ 53" and c: "1 \<le> c"
  shows "math_ceil (fl64 (of_int n / of_int c)) = \<lceil>rat_of_int n / of_int c\<rceil>"
proof -
  define x where "x = rat_of_int n / of_int c"
  define q where "q = n div c"
  define r where "r = n mod c"
  have cr: "(0::rat) < of_int c" using c by simp
  have nqr: "n = q * c + r" by (simp add: q_def r_def)
  have r0: "0 \<le> r" and rc: "r < c" using c by (simp_all add: r_def)
  have q0: "0 \<le> q" using n c by (simp add: q_def pos_imp_zdiv_nonneg_iff)
  have x: "x = of_int q + of_int r / of_int c"
    using cr by (simp add: x_def nqr add_divide_distrib)
  show ?thesis
  proof (cases "r = 0")
    case True
    then have xq: "x = of_int q" by (simp add: x)
    have "q * 1 \<le> q * c" using q0 c by (intro mult_left_mono) simp_all
    then have "q \<le> n" using nqr r0 by simp
    with n have "q < 2 ^ 53" by simp
    with q0 have "fl64 (of_int q) = of_int q" by (rule fl64_of_int)
    then show ?thesis unfolding x_def [symmetric] by (simp add: xq math_ceil_def)
  next
    case False
    with r0 have r1: "1 \<le> r" by simp
    have lo: "of_int q + 1 / of_int c \<le> x"
      using r1 cr by (simp add: x divide_right_mono)
    from rc have "r \<le> c - 1" by simp
    then have "rat_of_int r \<le> of_int (c - 1)" by (simp only: of_int_le_iff)
    then have "rat_of_int r \<le> of_int c - 1" by simp
    then have "rat_of_int r / of_int c \<le> (of_int c - 1) / of_int c"
      using cr by (simp add: divide_right_mono)
    also have "\<dots> = 1 - 1 / of_int c" using cr by (simp add: diff_divide_distrib)
    finally have hi: "x \<le> of_int q + 1 - 1 / of_int c" by (simp add: x)
    have ic: "0 < 1 / rat_of_int c" using cr by simp
    have qr: "(0::rat) \<le> of_int q" using q0 by simp
    from lo ic qr have xp: "0 < x" by linarith
    then have x0: "x \<noteq> 0" by simp
    have "rat_of_int n < of_int (2 ^ 53)" using n(2) by (simp only: of_int_less_iff)
    then have "rat_of_int n / 2 ^ 53 < 1" by simp
    then have "rat_of_int n / 2 ^ 53 / of_int c < 1 / of_int c"
      using cr by (rule divide_strict_right_mono)
    moreover have "x / 2 ^ 53 = rat_of_int n / 2 ^ 53 / of_int c" by (simp add: x_def)
    ultimately have small: "x / 2 ^ 53 < 1 / of_int c" by simp
    from fl64_error [OF x0] xp have "\<bar>fl64 x - x\<bar> \<le> x / 2 ^ 53" by simp
    with small have "\<bar>fl64 x - x\<bar> < 1 / of_int c" by linarith
    with lo hi have "of_int q < fl64 x" "fl64 x < of_int q + 1" by linarith+
    then have c1: "\<lceil>fl64 x\<rceil> = q + 1" by (intro ceiling_unique) simp_all
    from lo hi ic have "of_int q < x" "x < of_int q + 1" by linarith+
    then have "\<lceil>x\<rceil> = q + 1" by (intro ceiling_unique) simp_all
    with c1 have "\<lceil>fl64 x\<rceil> = \<lceil>x\<rceil>" by simp
    then show ?thesis by (simp add: math_ceil_def x_def)
  qed
qed


lemma contact_sheet_Inr:
  assumes "contact_sheet imgs cols grid_gap margin sheet_w sheet_h bg_rgb = Inr res"
  shows "imgs \<noteq> []" and "cols \<noteq> 0"
    and "cell_w res = Max (width ` set imgs)" and "cell_h res = Max (height ` set imgs)"
    and "offsets res = map (\<lambda>(i, im). paste_offset cols grid_gap margin (cell_w res) (cell_h res) i im)
           (enumerate 0 imgs)"
proof -
  from assms obtain cw where cw: "py_max (map width imgs) = Inr cw"
    by (cases "py_max (map width imgs)") (simp_all add: contact_sheet_def bind_err_def)
  from assms cw obtain ch where ch: "py_max (map height imgs) = Inr ch"
    by (cases "py_max (map height imgs)") (simp_all add: contact_sheet_def bind_err_def)
  from assms cw ch obtain q where q: "truediv (int (length imgs)) cols = Inr q"
    by (cases "truediv (int (length imgs)) cols") (simp_all add: contact_sheet_def bind_err_def)
  from cw show "imgs \<noteq> []" by (auto simp add: py_max_Inr_iff)
  from q show "cols \<noteq> 0" by (auto simp add: truediv_def split: if_splits)
  from cw ch have m: "cw = Max (width ` set imgs)" "ch = Max (height ` set imgs)"
    by (simp_all add: py_max_Inr_iff)
  from assms have f: "cell_w res = cw \<and> cell_h res = ch \<and>
      offsets res = map (\<lambda>(i, im). paste_offset cols grid_gap margin cw ch i im) (enumerate 0 imgs)"
    unfolding contact_sheet_def
    by (auto simp add: cw ch q bind_err_def Let_def split: sum.splits prod.splits)
  with m show "cell_w res = Max (width ` set imgs)" "cell_h res = Max (height ` set imgs)"
    by simp_all
  from f show "offsets res = map (\<lambda>(i, im). paste_offset cols grid_gap margin (cell_w res) (cell_h res) i im)
           (enumerate 0 imgs)" by simp
qed

lemma contact_sheet_offset:
  assumes "contact_sheet imgs cols grid_gap margin sheet_w sheet_h bg_rgb = Inr res"
    and "i < length imgs"
  shows "offsets res ! i = paste_offset cols grid_gap margin (cell_w res) (cell_h res) i (imgs ! i)"
  using assms(2) by (simp add: contact_sheet_Inr(5) [OF assms(1)] nth_enumerate_eq)

lemma cell_covers:
  assumes "i < length imgs"
  shows "width (imgs ! i) \<le> Max (width ` set imgs)" and "height (imgs ! i) \<le> Max (height ` set imgs)"
  using assms by (simp_all add: Max_ge)

lemma centered_offset_nonneg:
  assumes "0 \<le> margin" and "0 \<le> grid_gap" and "1 \<le> cols"
    and "0 \<le> width im" and "0 \<le> height im" and "width im \<le> cw" and "height im \<le> ch"
  shows "0 \<le> fst (centered_offset cols grid_gap margin cw ch i im)"
    and "0 \<le> snd (centered_offset cols grid_gap margin cw ch i im)"
proof -
  have c: "0 \<le> int i mod cols" and r: "0 \<le> int i div cols"
    using assms(3) by (simp_all add: pos_imp_zdiv_nonneg_iff)
  have "0 \<le> (int i mod cols) * (cw + grid_gap)" "0 \<le> (int i div cols) * (ch + grid_gap)"
    using c r assms by (simp_all add: mult_nonneg_nonneg)
  moreover have "0 \<le> (cw - width im) div 2" "0 \<le> (ch - height im) div 2"
    using assms by simp_all
  ultimately show "0 \<le> fst (centered_offset cols grid_gap margin cw ch i im)"
    and "0 \<le> snd (centered_offset cols grid_gap margin cw ch i im)"
    using assms(1) by (simp_all add: centered_offset_def cell_origin_def)
qed

lemma paste_offset_centered:
  assumes "0 \<le> margin" and "0 \<le> grid_gap" and "1 \<le> cols"
    and "0 \<le> width im" and "0 \<le> height im" and "width im \<le> cw" and "height im \<le> ch"
  shows "paste_offset cols grid_gap margin cw ch i im = centered_offset cols grid_gap margin cw ch i im"
  using centered_offset_nonneg [OF assms, of i]
  by (cases "centered_offset cols grid_gap margin cw ch i im") (simp add: paste_offset_def)

lemma stripe_unique:
  fixes a b s t cw :: int
  assumes "0 \<le> s" and "cw \<le> s"
    and "a * s \<le> t" and "t < a * s + cw" and "b * s \<le> t" and "t < b * s + cw"
  shows "a = b"
proof (rule ccontr)
  assume "a \<noteq> b"
  then consider "a + 1 \<le> b" | "b + 1 \<le> a" by linarith
  then show False
  proof cases
    case 1
    then have "(a + 1) * s \<le> b * s" using assms(1) by (rule mult_right_mono)
    then have "a * s + s \<le> b * s" by (simp add: algebra_simps)
    with assms show False by linarith
  next
    case 2
    then have "(b + 1) * s \<le> a * s" using assms(1) by (rule mult_right_mono)
    then have "b * s + s \<le> a * s" by (simp add: algebra_simps)
    with assms show False by linarith
  qed
qed

lemma in_centered_box:
  assumes "in_box (centered_offset cols grid_gap margin cw ch i im) (image_size im) x y"
    and "width im \<le> cw" and "height im \<le> ch"
  shows "(int i mod cols) * (cw + grid_gap) \<le> x - margin"
    and "x - margin < (int i mod cols) * (cw + grid_gap) + cw"
    and "(int i div cols) * (ch + grid_gap) \<le> y - margin"
    and "y - margin < (int i div cols) * (ch + grid_gap) + ch"
proof -
  define dx where "dx = (cw - width im) div 2"
  define dy where "dy = (ch - height im) div 2"
  define X where "X = (int i mod cols) * (cw + grid_gap)"
  define Y where "Y = (int i div cols) * (ch + grid_gap)"
  have d: "0 \<le> dx" "dx + width im \<le> cw" "0 \<le> dy" "dy + height im \<le> ch"
    using assms(2,3) by (simp_all add: dx_def dy_def)
  from assms(1) have b: "margin + X + dx \<le> x" "x < margin + X + dx + width im"
    "margin + Y + dy \<le> y" "y < margin + Y + dy + height im"
    by (simp_all add: in_box_def centered_offset_def cell_origin_def image_size_def
        dx_def dy_def X_def Y_def)
  from b d show "(int i mod cols) * (cw + grid_gap) \<le> x - margin"
    and "x - margin < (int i mod cols) * (cw + grid_gap) + cw"
    and "(int i div cols) * (ch + grid_gap) \<le> y - margin"
    and "y - margin < (int i div cols) * (ch + grid_gap) + ch"
    unfolding X_def [symmetric] Y_def [symmetric] by linarith+
qed

lemma Max_nonneg:
  assumes "xs \<noteq> []" and "\<forall>x\<in>set xs. (0::int) \<le> f x"
  shows "0 \<le> Max (f ` set xs)"
proof -
  from assms(1) obtain x where x: "x \<in> set xs" by (cases xs) auto
  with assms(2) have "0 \<le> f x" by simp
  also have "f x \<le> Max (f ` set xs)" using x by (simp add: Max_ge)
  finally show ?thesis .
qed

lemma contact_sheet_auto:
  assumes ne: "imgs \<noteq> []" and len: "length imgs < 2 ^ 53"
    and sizes: "\<forall>im\<in>set imgs. 0 \<le> width im \<and> 0 \<le> height im"
    and cols: "1 \<le> cols" and gap: "0 \<le> grid_gap" and margin: "0 \<le> margin"
    and auto: "sheet_w = None \<or> sheet_h = None"
  defines "cw \<equiv> Max (width ` set imgs)" and "ch \<equiv> Max (height ` set imgs)"
  defines "rws \<equiv> \<lceil>rat_of_nat (length imgs) / rat_of_int cols\<rceil>"
  defines "W \<equiv> margin * 2 + cols * cw + (cols - 1) * grid_gap"
  defines "H \<equiv> margin * 2 + rws * ch + (rws - 1) * grid_gap"
  defines "offs \<equiv> map (\<lambda>(i, im). paste_offset cols grid_gap margin cw ch i im) (enumerate 0 imgs)"
  shows "contact_sheet imgs cols grid_gap margin sheet_w sheet_h bg_rgb =
     Inr \<lparr>cell_w = cw, cell_h = ch, rows = rws, sheet_W = W, sheet_H = H,
          too_small_warning = False, offsets = offs,
          sheet = fold (\<lambda>(im, pos) s. image_paste s im pos) (zip imgs offs) (solid W H bg_rgb)\<rparr>"
proof -
  have mw: "py_max (map width imgs) = Inr cw" and mh: "py_max (map height imgs) = Inr ch"
    using ne by (simp_all add: py_max_Inr cw_def ch_def)
  have "int (length imgs) < 2 ^ 53" using len by simp
  then have ce: "math_ceil (fl64 (rat_of_nat (length imgs) / of_int cols)) = rws"
    using cols ceil_truediv [of "int (length imgs)" cols] unfolding rws_def by simp
  have td: "truediv (int (length imgs)) cols = Inr (fl64 (rat_of_nat (length imgs) / of_int cols))"
    using cols by (simp add: truediv_Inr)
  have cw0: "0 \<le> cw" and ch0: "0 \<le> ch"
    using ne sizes by (simp_all add: cw_def ch_def Max_nonneg)
  have "0 < rat_of_nat (length imgs) / rat_of_int cols" using ne cols by simp
  then have r1: "1 \<le> rws" unfolding rws_def by (simp add: Suc_le_eq)
  have "0 \<le> cols * cw" "0 \<le> (cols - 1) * grid_gap" "0 \<le> rws * ch" "0 \<le> (rws - 1) * grid_gap"
    using cols gap cw0 ch0 r1 by simp_all
  then have "0 \<le> W" "0 \<le> H" using margin by (simp_all add: W_def H_def)
  then have new: "image_new (W, H) bg_rgb = Inr (solid W H bg_rgb)" by (rule image_new_Inr)
  from auto show ?thesis
    unfolding contact_sheet_def
    by (cases sheet_w; cases sheet_h)
      (simp_all add: mw mh td bind_err_def Let_def ce new W_def [symmetric] H_def [symmetric]
        offs_def [symmetric])
qed

section \<open>The claims\<close>

text \<open>
  C1.  For an image of positive width w and height h, resize_by_long_or_short with
  keep_ratio computes scale = target / max(w, h) for the longest edge and
  target / min(w, h) for the short edge, as Python floats.  With no_upscale and
  scale > 1.0 it returns the image it was given; otherwise it returns an image of size
  (max(1, round(w * scale)), max(1, round(h * scale))).  In particular images of sizes
  (800, 600) and (600, 800), longest edge 400, no_upscale off, give (400, 300) and
  (300, 400).
\<close>

theorem resize_by_long_or_short_keep_ratio:
  "(0 < width img \<and> 0 < height img \<longrightarrow>
      (\<exists>scale out.
         truediv target (if mode = LongEdge then max (width img) (height img)
                         else min (width img) (height img)) = Inr scale \<and>
         resize_by_long_or_short img target mode True no_upscale interp = Inr out \<and>
         (if no_upscale \<and> 1 < scale then out = img
          else image_size out =
                 (max 1 (py_round (int_times_float (width img) scale)),
                  max 1 (py_round (int_times_float (height img) scale)))))) \<and>
   (width a = 800 \<and> height a = 600 \<longrightarrow>
      (\<exists>out. resize_by_long_or_short a 400 LongEdge True False interp = Inr out \<and>
             image_size out = (400, 300))) \<and>
   (width b = 600 \<and> height b = 800 \<longrightarrow>
      (\<exists>out. resize_by_long_or_short b 400 LongEdge True False interp = Inr out \<and>
             image_size out = (300, 400)))"
proof (intro conjI impI)
  assume pos: "0 < width img \<and> 0 < height img"
  define m where "m = (if mode = LongEdge then max (width img) (height img)
                       else min (width img) (height img))"
  define scale where "scale = fl64 (of_int target / of_int m)"
  from pos have "m \<noteq> 0" by (auto simp add: m_def)
  then have td: "truediv target m = Inr scale" by (simp add: truediv_Inr scale_def)
  have run: "resize_by_long_or_short img target mode True no_upscale interp =
      (if no_upscale \<and> 1 < scale then Inr img
       else image_resize img (scaled_size (width img) (height img) scale) interp)"
    using td unfolding m_def
    by (cases "mode = LongEdge") (simp_all add: resize_by_long_or_short_def Let_def bind_err_def)
  show "\<exists>scale out.
         truediv target (if mode = LongEdge then max (width img) (height img)
                         else min (width img) (height img)) = Inr scale \<and>
         resize_by_long_or_short img target mode True no_upscale interp = Inr out \<and>
         (if no_upscale \<and> 1 < scale then out = img
          else image_size out =
                 (max 1 (py_round (int_times_float (width img) scale)),
                  max 1 (py_round (int_times_float (height img) scale))))"
  proof (cases "no_upscale \<and> 1 < scale")
    case True
    with run td show ?thesis unfolding m_def by auto
  next
    case False
    obtain out where out: "image_resize img (scaled_size (width img) (height img) scale) interp = Inr out"
      and sz: "image_size out = scaled_size (width img) (height img) scale"
      using image_resize_size [OF scaled_size_ge_1] by blast
    from False run out have "resize_by_long_or_short img target mode True no_upscale interp = Inr out"
      by auto
    with td sz False show ?thesis unfolding m_def scaled_size_def by auto
  qed
next
  assume a: "width a = 800 \<and> height a = 600"
  obtain out where out: "image_resize a (400, 300) interp = Inr out"
    and sz: "image_size out = (400, 300)"
    using image_resize_size [of "(400, 300)" a interp] by auto
  have "resize_by_long_or_short a 400 LongEdge True False interp = Inr out"
    using a out by (simp add: resize_by_long_or_short_def Let_def bind_err_def truediv_def
        scaled_size_800_600)
  with sz show "\<exists>out. resize_by_long_or_short a 400 LongEdge True False interp = Inr out \<and>
      image_size out = (400, 300)" by blast
next
  assume b: "width b = 600 \<and> height b = 800"
  obtain out where out: "image_resize b (300, 400) interp = Inr out"
    and sz: "image_size out = (300, 400)"
    using image_resize_size [of "(300, 400)" b interp] by auto
  have "resize_by_long_or_short b 400 LongEdge True False interp = Inr out"
    using b out by (simp add: resize_by_long_or_short_def Let_def bind_err_def truediv_def
        scaled_size_600_800)
  with sz show "\<exists>out. resize_by_long_or_short b 400 LongEdge True False interp = Inr out \<and>
      image_size out = (300, 400)" by blast
qed

theorem resize_by_long_or_short_keep_ratio_witness:
  "(\<exists>out. resize_by_long_or_short (solid 800 600 (255, 255, 255)) 400 LongEdge True False point_filter
            = Inr out \<and> image_size out = (400, 300)) \<and>
   (\<exists>out. resize_by_long_or_short (solid 600 800 (255, 255, 255)) 400 LongEdge True False point_filter
            = Inr out \<and> image_size out = (300, 400)) \<and>
   (\<exists>scale. truediv 400 (max 800 600) = Inr scale \<and>
        max 1 (py_round (int_times_float 800 scale)) = 400 \<and>
        max 1 (py_round (int_times_float 600 scale)) = 300)"
proof -
  let ?a = "solid 800 600 (255, 255, 255)" and ?b = "solid 600 800 (255, 255, 255)"
  note inst = resize_by_long_or_short_keep_ratio
    [of ?a 400 LongEdge False point_filter ?a ?b]
  have wa: "width ?a = 800 \<and> height ?a = 600" and wb: "width ?b = 600 \<and> height ?b = 800"
    by (simp_all add: solid_def)
  have pos: "0 < width ?a \<and> 0 < height ?a" by (simp add: solid_def)
  from inst pos obtain scale out where
    td: "truediv 400 (max (width ?a) (height ?a)) = Inr scale" and
    "resize_by_long_or_short ?a 400 LongEdge True False point_filter = Inr out" and
    sz: "image_size out = (max 1 (py_round (int_times_float (width ?a) scale)),
                          max 1 (py_round (int_times_float (height ?a) scale)))"
    by auto
  from inst wa obtain out1 where o1: "resize_by_long_or_short ?a 400 LongEdge True False point_filter = Inr out1"
    "image_size out1 = (400, 300)" by blast
  from inst wb obtain out2 where o2: "resize_by_long_or_short ?b 400 LongEdge True False point_filter = Inr out2"
    "image_size out2 = (300, 400)" by blast
  from td have sc: "scale = fl64 (1 / 2)" by (simp add: solid_def truediv_def)
  have "scaled_size 800 600 scale = (400, 300)" by (simp only: sc scaled_size_800_600)
  then have "max 1 (py_round (int_times_float 800 scale)) = 400 \<and>
        max 1 (py_round (int_times_float 600 scale)) = 300"
    by (simp add: scaled_size_def)
  moreover from td have "truediv 400 (max 800 600) = Inr scale" by (simp add: solid_def)
  ultimately show ?thesis using o1 o2 by blast
qed

text \<open>
  C2.  For an image of positive width w and height h and a positive target (tw, th),
  resize_to_box in the pad mode computes scale = min(tw / w, th / h), at most 1.0 when
  no_upscale is set, resizes the image to (max(1, round(w * scale)),
  max(1, round(h * scale))) and pastes it at ((tw - nw) // 2, (th - nh) // 2), the
  centre up to one pixel, on a canvas of the background colour.  The result has size
  exactly (tw, th): inside the pasted box it shows the resized image, elsewhere the
  background colour.
\<close>

theorem resize_to_box_pad_to_fit:
  assumes "0 < width img" and "0 < height img" and "0 < tw" and "0 < th"
  shows "\<exists>sw sh scale nw nh img2 out.
     truediv tw (width img) = Inr sw \<and> truediv th (height img) = Inr sh \<and>
     scale = (if no_upscale then min 1 (min sw sh) else min sw sh) \<and>
     nw = max 1 (py_round (int_times_float (width img) scale)) \<and>
     nh = max 1 (py_round (int_times_float (height img) scale)) \<and>
     image_resize img (nw, nh) interp = Inr img2 \<and> image_size img2 = (nw, nh) \<and>
     resize_to_box img tw th PadToFit color interp no_upscale = Inr out \<and>
     image_size out = (tw, th) \<and>
     0 \<le> (tw - nw) - 2 * ((tw - nw) div 2) \<and> (tw - nw) - 2 * ((tw - nw) div 2) \<le> 1 \<and>
     0 \<le> (th - nh) - 2 * ((th - nh) div 2) \<and> (th - nh) - 2 * ((th - nh) div 2) \<le> 1 \<and>
     (\<forall>x y. pixel out x y =
        (if in_box ((tw - nw) div 2, (th - nh) div 2) (nw, nh) x y
         then pixel img2 (x - (tw - nw) div 2) (y - (th - nh) div 2) else color))"
proof -
  define sw where "sw = fl64 (of_int tw / of_int (width img))"
  define sh where "sh = fl64 (of_int th / of_int (height img))"
  define scale where "scale = (if no_upscale then min 1 (min sw sh) else min sw sh)"
  define nw where "nw = max 1 (py_round (int_times_float (width img) scale))"
  define nh where "nh = max 1 (py_round (int_times_float (height img) scale))"
  have tdw: "truediv tw (width img) = Inr sw" and tdh: "truediv th (height img) = Inr sh"
    using assms by (simp_all add: truediv_Inr sw_def sh_def)
  have ss: "scaled_size (width img) (height img) scale = (nw, nh)"
    by (simp add: scaled_size_def nw_def nh_def)
  obtain img2 where r: "image_resize img (nw, nh) interp = Inr img2"
    and sz2: "image_size img2 = (nw, nh)"
    using image_resize_size [of "(nw, nh)" img interp] by (auto simp add: nw_def nh_def)
  define out where
    "out = image_paste (solid tw th color) img2 ((tw - nw) div 2, (th - nh) div 2)"
  have new: "image_new (tw, th) color = Inr (solid tw th color)"
    using assms by (simp add: image_new_Inr)
  have sc: "(let s = min sw sh in if no_upscale then min 1 s else s) = scale"
    by (simp add: scale_def Let_def)
  have run: "resize_to_box img tw th PadToFit color interp no_upscale = Inr out"
    unfolding resize_to_box_def Let_def
    by (simp add: tdw tdh bind_err_def ss r new out_def scale_def [symmetric])
  have osz: "image_size out = (tw, th)"
    by (simp add: out_def image_size_def image_paste_simps solid_simps)
  have px: "\<forall>x y. pixel out x y =
        (if in_box ((tw - nw) div 2, (th - nh) div 2) (nw, nh) x y
         then pixel img2 (x - (tw - nw) div 2) (y - (th - nh) div 2) else color)"
    by (simp add: out_def image_paste_simps solid_simps sz2)
  show ?thesis
    using tdw tdh scale_def nw_def nh_def r sz2 run osz px
      half_margin [of tw nw] half_margin [of th nh]
    by blast
qed

theorem resize_to_box_pad_to_fit_witness:
  "\<exists>out. resize_to_box (solid 1000 500 (0, 0, 0)) 500 500 PadToFit (255, 255, 255) point_filter False
            = Inr out \<and>
         image_size out = (500, 500) \<and>
         pixel out 10 10 = (255, 255, 255) \<and> pixel out 250 250 = (0, 0, 0)"
proof -
  let ?img = "solid 1000 500 (0, 0, 0)"
  have pos: "0 < width ?img" "0 < height ?img" "(0::int) < 500" by (simp_all add: solid_simps)
  from resize_to_box_pad_to_fit [OF pos(1) pos(2) pos(3) pos(3), of False point_filter "(255, 255, 255)"]
  obtain sw sh scale nw nh img2 out where
    tdw: "truediv 500 (width ?img) = Inr sw" and tdh: "truediv 500 (height ?img) = Inr sh" and
    scale: "scale = (if False then min 1 (min sw sh) else min sw sh)" and
    nw: "nw = max 1 (py_round (int_times_float (width ?img) scale))" and
    nh: "nh = max 1 (py_round (int_times_float (height ?img) scale))" and
    r: "image_resize ?img (nw, nh) point_filter = Inr img2" and
    run: "resize_to_box ?img 500 500 PadToFit (255, 255, 255) point_filter False = Inr out" and
    osz: "image_size out = (500, 500)" and
    px: "\<forall>x y. pixel out x y =
        (if in_box ((500 - nw) div 2, (500 - nh) div 2) (nw, nh) x y
         then pixel img2 (x - (500 - nw) div 2) (y - (500 - nh) div 2) else (255, 255, 255))"
    by blast
  from tdw tdh have "sw = fl64 (1 / 2)" "sh = fl64 1"
    by (simp_all add: truediv_def solid_simps)
  with scale have sc: "scale = min (fl64 (1 / 2)) (fl64 1)" by simp
  have "scaled_size 1000 500 scale = (500, 250)" by (simp only: sc scaled_size_1000_500)
  with nw nh have n: "nw = 500" "nh = 250" by (simp_all add: scaled_size_def solid_simps)
  from r n have "img2 = \<lparr>width = 500, height = 250, pixel = point_filter ?img (500, 250)\<rparr>"
    by (simp add: image_resize_def image_size_def solid_simps)
  then have p2: "pixel img2 x y = (0, 0, 0)" for x y
    by (simp add: point_filter_def solid_simps)
  have "pixel out 10 10 = (255, 255, 255)" "pixel out 250 250 = (0, 0, 0)"
    by (simp_all add: px n in_box_def p2)
  with run osz show ?thesis by blast
qed

text \<open>
  C3, as amended.  For an image of positive width w and height h and a positive target
  (tw, th), resize_to_box in the crop mode computes scale = max(tw / w, th / h), at most
  1.0 when no_upscale is set, resizes the image to (nw, nh) = (max(1, round(w * scale)),
  max(1, round(h * scale))) with the one factor for both sides, and returns the box of
  size (tw, th) at (max(0, (nw - tw) // 2), max(0, (nh - th) // 2)) of the resized
  image.  The result has size exactly (tw, th); a pixel of it whose place in the box
  lies inside the resized image is that image's pixel.  The result is a centered crop
  of the resized image exactly when no_upscale is off or the image is at least as large
  as the target in both dimensions (tw <= w and th <= h): then the resized image covers
  the target.  With no_upscale set and an image smaller than the target in some
  dimension the resized image is smaller than the result there, and the result is not
  a crop of it.  (The sides are floats: w, h below 2^53, and tw, th below 2^51 where
  the resized image has to cover the target.)
\<close>

theorem resize_to_box_crop_to_fill:
  assumes "0 < width img" and "0 < height img" and "0 < tw" and "0 < th"
  shows "\<exists>sw sh scale nw nh img2 left upper out.
     truediv tw (width img) = Inr sw \<and> truediv th (height img) = Inr sh \<and>
     scale = (if no_upscale then min 1 (max sw sh) else max sw sh) \<and>
     nw = max 1 (py_round (int_times_float (width img) scale)) \<and>
     nh = max 1 (py_round (int_times_float (height img) scale)) \<and>
     image_resize img (nw, nh) interp = Inr img2 \<and> image_size img2 = (nw, nh) \<and>
     left = max 0 ((nw - tw) div 2) \<and> upper = max 0 ((nh - th) div 2) \<and>
     resize_to_box img tw th CropToFill color interp no_upscale = Inr out \<and>
     image_size out = (tw, th) \<and>
     (\<forall>x y. in_box (0, 0) (nw, nh) (x + left) (y + upper) \<longrightarrow>
            pixel out x y = pixel img2 (x + left) (y + upper)) \<and>
     (tw \<le> nw \<and> th \<le> nh \<longrightarrow> is_centered_crop img2 out) \<and>
     (width img < 2 ^ 53 \<and> height img < 2 ^ 53 \<and> tw < 2 ^ 51 \<and> th < 2 ^ 51 \<and>
      (\<not> no_upscale \<or> (tw \<le> width img \<and> th \<le> height img))
        \<longrightarrow> tw \<le> nw \<and> th \<le> nh \<and> is_centered_crop img2 out) \<and>
     (width img < 2 ^ 53 \<and> height img < 2 ^ 53 \<and>
      no_upscale \<and> (width img < tw \<or> height img < th)
        \<longrightarrow> (nw < tw \<or> nh < th) \<and> \<not> is_centered_crop img2 out)"
proof -
  define sw where "sw = fl64 (of_int tw / of_int (width img))"
  define sh where "sh = fl64 (of_int th / of_int (height img))"
  define scale where "scale = (if no_upscale then min 1 (max sw sh) else max sw sh)"
  define nw where "nw = max 1 (py_round (int_times_float (width img) scale))"
  define nh where "nh = max 1 (py_round (int_times_float (height img) scale))"
  define left where "left = max 0 ((nw - tw) div 2)"
  define upper where "upper = max 0 ((nh - th) div 2)"
  have tdw: "truediv tw (width img) = Inr sw" and tdh: "truediv th (height img) = Inr sh"
    using assms by (simp_all add: truediv_Inr sw_def sh_def)
  have ss: "scaled_size (width img) (height img) scale = (nw, nh)"
    by (simp add: scaled_size_def nw_def nh_def)
  obtain img2 where r: "image_resize img (nw, nh) interp = Inr img2"
    and sz2: "image_size img2 = (nw, nh)"
    using image_resize_size [of "(nw, nh)" img interp] by (auto simp add: nw_def nh_def)
  define out where "out = \<lparr>width = tw, height = th,
      pixel = (\<lambda>x y. if in_box (0, 0) (image_size img2) (x + left) (y + upper)
                     then pixel img2 (x + left) (y + upper) else (0, 0, 0))\<rparr>"
  have crop: "image_crop img2 (left, upper, left + tw, upper + th) = Inr out"
    using assms by (simp add: image_crop_Inr out_def)
  have run: "resize_to_box img tw th CropToFill color interp no_upscale = Inr out"
    unfolding resize_to_box_def Let_def
    by (simp add: tdw tdh bind_err_def ss r crop left_def [symmetric] upper_def [symmetric]
        scale_def [symmetric])
  have osz: "image_size out = (tw, th)"
    by (simp add: out_def image_size_def)
  have px: "\<forall>x y. in_box (0, 0) (nw, nh) (x + left) (y + upper) \<longrightarrow>
            pixel out x y = pixel img2 (x + left) (y + upper)"
    by (simp add: out_def sz2)
  have cc: "is_centered_crop img2 out" if cover: "tw \<le> nw \<and> th \<le> nh"
  proof -
    from sz2 have w2: "width img2 = nw" and h2: "height img2 = nh"
      by (simp_all add: image_size_def)
    from cover have l: "left = (nw - tw) div 2" and u: "upper = (nh - th) div 2"
      by (simp_all add: left_def upper_def)
    have inside: "in_box (0, 0) (nw, nh) (x + left) (y + upper)"
      if "x \<in> {0..<tw}" and "y \<in> {0..<th}" for x y
      using that cover unfolding in_box_def l u by auto
    show ?thesis
      unfolding is_centered_crop_def
      using cover px inside by (simp add: w2 h2 out_def sz2 l u)
  qed
  have swp: "0 < sw" and shp: "0 < sh"
    using assms unfolding sw_def sh_def by (simp_all add: fl64_pos)
  have cover: "tw \<le> nw \<and> th \<le> nh \<and> is_centered_crop img2 out"
    if b: "width img < 2 ^ 53 \<and> height img < 2 ^ 53 \<and> tw < 2 ^ 51 \<and> th < 2 ^ 51 \<and>
      (\<not> no_upscale \<or> (tw \<le> width img \<and> th \<le> height img))"
  proof -
    have le: "sw \<le> scale \<and> sh \<le> scale"
    proof (cases no_upscale)
      case False
      then show ?thesis by (simp add: scale_def)
    next
      case True
      with b have fit: "tw \<le> width img" "th \<le> height img" by simp_all
      have "rat_of_int tw / of_int (width img) \<le> 1" "rat_of_int th / of_int (height img) \<le> 1"
        using assms fit by (simp_all add: pos_divide_le_eq)
      moreover have "0 < rat_of_int tw / of_int (width img)" "0 < rat_of_int th / of_int (height img)"
        using assms by simp_all
      ultimately have "sw \<le> 1" "sh \<le> 1"
        unfolding sw_def sh_def by (simp_all add: fl64_le_one)
      with True show ?thesis by (simp add: scale_def)
    qed
    then have "fl64 (of_int tw / of_int (width img)) \<le> scale"
      and "fl64 (of_int th / of_int (height img)) \<le> scale"
      by (simp_all add: sw_def sh_def)
    with assms b have "tw \<le> nw \<and> th \<le> nh"
      unfolding nw_def nh_def by (simp add: scaled_side_covers)
    with cc show ?thesis by simp
  qed
  have short: "(nw < tw \<or> nh < th) \<and> \<not> is_centered_crop img2 out"
    if b: "width img < 2 ^ 53 \<and> height img < 2 ^ 53 \<and>
      no_upscale \<and> (width img < tw \<or> height img < th)"
  proof -
    from b have sc: "scale = min 1 (max sw sh)" by (simp add: scale_def)
    have s01: "0 < scale" "scale \<le> 1" using swp shp by (simp_all add: sc)
    have "nw \<le> width img"
      unfolding nw_def using assms b s01 by (intro scaled_side_le) simp_all
    moreover have "nh \<le> height img"
      unfolding nh_def using assms b s01 by (intro scaled_side_le) simp_all
    ultimately have "nw \<le> width img" "nh \<le> height img" by simp_all
    with b have lt: "nw < tw \<or> nh < th" by linarith
    from sz2 have w2: "width img2 = nw" and h2: "height img2 = nh"
      by (simp_all add: image_size_def)
    from osz have wo: "width out = tw" and ho: "height out = th"
      by (simp_all add: image_size_def)
    from lt have "\<not> is_centered_crop img2 out"
      unfolding is_centered_crop_def w2 h2 wo ho by linarith
    with lt show ?thesis by simp
  qed
  show ?thesis
    using tdw tdh scale_def nw_def nh_def r sz2 left_def upper_def run osz px cc cover short
    by blast
qed

theorem resize_to_box_crop_to_fill_witness:
  "(\<exists>out. resize_to_box (solid 1000 500 (9, 9, 9)) 500 500 CropToFill (255, 255, 255) point_filter False
            = Inr out \<and>
          image_size out = (500, 500) \<and> pixel out 10 10 = (9, 9, 9)) \<and>
   (\<exists>out. resize_to_box (solid 1000 500 (9, 9, 9)) 500 500 CropToFill (255, 255, 255) point_filter True
            = Inr out \<and>
          image_size out = (500, 500) \<and> pixel out 10 10 = (9, 9, 9)) \<and>
   (\<exists>nw nh img2 out.
          image_resize (solid 300 500 (9, 9, 9)) (nw, nh) point_filter = Inr img2 \<and>
          resize_to_box (solid 300 500 (9, 9, 9)) 400 400 CropToFill (255, 255, 255) point_filter True
            = Inr out \<and>
          image_size out = (400, 400) \<and> (nw < 400 \<or> nh < 400) \<and> \<not> is_centered_crop img2 out)"
proof -
  let ?img = "solid 1000 500 (9, 9, 9)"
  have pos: "0 < width ?img" "0 < height ?img" "(0::int) < 500" by (simp_all add: solid_simps)
  have covered: "\<exists>out. resize_to_box ?img 500 500 CropToFill (255, 255, 255) point_filter nu = Inr out \<and>
          image_size out = (500, 500) \<and> pixel out 10 10 = (9, 9, 9)" for nu
  proof -
    from resize_to_box_crop_to_fill [OF pos(1) pos(2) pos(3) pos(3), of nu point_filter "(255, 255, 255)"]
    obtain nw nh img2 out where
      r: "image_resize ?img (nw, nh) point_filter = Inr img2" and
      run: "resize_to_box ?img 500 500 CropToFill (255, 255, 255) point_filter nu = Inr out" and
      osz: "image_size out = (500, 500)" and
      cover: "width ?img < 2 ^ 53 \<and> height ?img < 2 ^ 53 \<and> (500::int) < 2 ^ 51 \<and> (500::int) < 2 ^ 51 \<and>
          (\<not> nu \<or> (500 \<le> width ?img \<and> 500 \<le> height ?img))
          \<longrightarrow> 500 \<le> nw \<and> 500 \<le> nh \<and> is_centered_crop img2 out"
      by blast
    from cover have c: "500 \<le> nw \<and> 500 \<le> nh" and crop: "is_centered_crop img2 out"
      by (simp_all add: solid_simps)
    from c r have "(nw, nh) = (1000, 500) \<or>
        img2 = \<lparr>width = nw, height = nh, pixel = point_filter ?img (nw, nh)\<rparr>"
      by (auto simp add: image_resize_def image_size_def solid_simps split: if_splits)
    with r have p2: "pixel img2 x y = (9, 9, 9)" for x y
      by (auto simp add: image_resize_def image_size_def point_filter_def solid_simps
          split: if_splits)
    from osz have o: "width out = 500" "height out = 500" by (simp_all add: image_size_def)
    from crop have "pixel out 10 10 = pixel img2 (10 + (width img2 - width out) div 2)
        (10 + (height img2 - height out) div 2)"
      unfolding is_centered_crop_def by (simp add: o)
    then have "pixel out 10 10 = (9, 9, 9)" by (simp add: p2)
    with run osz show ?thesis by blast
  qed
  let ?small = "solid 300 500 (9, 9, 9)"
  have ps: "0 < width ?small" "0 < height ?small" "(0::int) < 400" by (simp_all add: solid_simps)
  from resize_to_box_crop_to_fill [OF ps(1) ps(2) ps(3) ps(3), of True point_filter "(255, 255, 255)"]
  obtain nw nh img2 out where
    r: "image_resize ?small (nw, nh) point_filter = Inr img2" and
    run: "resize_to_box ?small 400 400 CropToFill (255, 255, 255) point_filter True = Inr out" and
    osz: "image_size out = (400, 400)" and
    short: "width ?small < 2 ^ 53 \<and> height ?small < 2 ^ 53 \<and>
        True \<and> (width ?small < 400 \<or> height ?small < 400)
        \<longrightarrow> (nw < 400 \<or> nh < 400) \<and> \<not> is_centered_crop img2 out"
    by blast
  from short have "(nw < 400 \<or> nh < 400) \<and> \<not> is_centered_crop img2 out"
    by (simp add: solid_simps)
  with r run osz have "\<exists>nw nh img2 out.
          image_resize ?small (nw, nh) point_filter = Inr img2 \<and>
          resize_to_box ?small 400 400 CropToFill (255, 255, 255) point_filter True = Inr out \<and>
          image_size out = (400, 400) \<and> (nw < 400 \<or> nh < 400) \<and> \<not> is_centered_crop img2 out"
    by blast
  with covered [of False] covered [of True] show ?thesis by blast
qed

text \<open>
  C3 as first stated fails with no_upscale set and an image smaller than the target: a
  white image of one pixel and the target (2, 2).  The scale clamps to 1.0, the image
  is not resized, and the result of size (2, 2) holds a black pixel: it is larger than
  the scaled source and not a crop of it.
\<close>

theorem resize_to_box_crop_to_fill_counterexample:
  "\<exists>img2 out.
     truediv 2 1 = Inr (fl64 2) \<and>
     scaled_size 1 1 (min 1 (max (fl64 2) (fl64 2))) = (1, 1) \<and>
     image_resize (solid 1 1 (255, 255, 255)) (1, 1) point_filter = Inr img2 \<and>
     resize_to_box (solid 1 1 (255, 255, 255)) 2 2 CropToFill (255, 255, 255) point_filter True
       = Inr out \<and>
     image_size out = (2, 2) \<and> pixel out 1 1 = (0, 0, 0) \<and> pixel img2 0 0 = (255, 255, 255) \<and>
     \<not> is_centered_crop img2 out"
proof -
  let ?img = "solid 1 1 (255, 255, 255)"
  let ?out = "\<lparr>width = 2, height = 2,
      pixel = (\<lambda>x y. if in_box (0, 0) (image_size ?img) x y
                     then pixel ?img x y else (0, 0, 0))\<rparr>"
  have r: "image_resize ?img (1, 1) point_filter = Inr ?img"
    by (simp add: image_resize_def image_size_def solid_simps)
  have td: "truediv 2 1 = Inr (fl64 2)"
    by (simp add: truediv_def)
  have crop: "image_crop ?img (0, 0, 2, 2) = Inr ?out"
    by (simp add: image_crop_def cong: if_cong)
  have run: "resize_to_box ?img 2 2 CropToFill (255, 255, 255) point_filter True = Inr ?out"
    unfolding resize_to_box_def Let_def
    using crop by (simp add: td bind_err_def solid_simps scaled_size_1_1 r)
  have "image_size ?out = (2, 2)" "pixel ?out 1 1 = (0, 0, 0)" "pixel ?img 0 0 = (255, 255, 255)"
    "\<not> is_centered_crop ?img ?out"
    by (simp_all add: image_size_def in_box_def solid_simps is_centered_crop_def)
  moreover have "scaled_size 1 1 (min 1 (max (fl64 2) (fl64 2))) = (1, 1)"
    by (simp add: scaled_size_1_1)
  ultimately show ?thesis using r run td by blast
qed

text \<open>
  C10.  In the crop mode with no_upscale set, an image that is no larger than the target
  in both dimensions is not scaled (the clamped scale is 1.0), and the crop box starts
  at (0, 0) and runs past the image: the result has size exactly (tw, th), shows the
  image in its top-left corner and black, not the background colour, everywhere else.
  (The sides are floats: w, h below 2^53.)
\<close>

theorem resize_to_box_crop_small_image:
  assumes "0 < width img" and "0 < height img"
    and "width img \<le> tw" and "height img \<le> th"
    and "width img < 2 ^ 53" and "height img < 2 ^ 53"
  shows "\<exists>out. resize_to_box img tw th CropToFill color interp True = Inr out \<and>
     image_size out = (tw, th) \<and>
     (\<forall>x y. in_box (0, 0) (tw, th) x y \<longrightarrow>
        pixel out x y = (if x < width img \<and> y < height img then pixel img x y else (0, 0, 0)))"
proof -
  define sw where "sw = fl64 (of_int tw / of_int (width img))"
  define sh where "sh = fl64 (of_int th / of_int (height img))"
  have tdw: "truediv tw (width img) = Inr sw" and tdh: "truediv th (height img) = Inr sh"
    using assms by (simp_all add: truediv_Inr sw_def sh_def)
  have "1 \<le> rat_of_int tw / of_int (width img)"
    using assms by (simp add: pos_le_divide_eq)
  then have "1 \<le> sw" unfolding sw_def by (rule fl64_ge_one)
  then have sc: "min 1 (max sw sh) = 1" by simp
  have ss: "scaled_size (width img) (height img) 1 = (width img, height img)"
    using assms by (simp add: scaled_size_unit)
  have r: "image_resize img (width img, height img) interp = Inr img"
    by (simp add: image_resize_def image_size_def)
  have l: "max 0 ((width img - tw) div 2) = 0" "max 0 ((height img - th) div 2) = 0"
    using assms by simp_all
  define out where "out = \<lparr>width = tw, height = th,
      pixel = (\<lambda>x y. if in_box (0, 0) (image_size img) (x + 0) (y + 0)
                     then pixel img (x + 0) (y + 0) else (0, 0, 0))\<rparr>"
  have crop: "image_crop img (0, 0, 0 + tw, 0 + th) = Inr out"
    unfolding out_def using assms by (intro image_crop_Inr) simp_all
  have run: "resize_to_box img tw th CropToFill color interp True = Inr out"
    unfolding resize_to_box_def Let_def
    using crop by (simp add: tdw tdh bind_err_def sc ss r l)
  have "image_size out = (tw, th)" by (simp add: out_def image_size_def)
  moreover have "\<forall>x y. in_box (0, 0) (tw, th) x y \<longrightarrow>
        pixel out x y = (if x < width img \<and> y < height img then pixel img x y else (0, 0, 0))"
    by (simp add: out_def in_box_def image_size_def)
  ultimately show ?thesis using run by blast
qed

theorem resize_to_box_crop_small_image_witness:
  "\<exists>out. resize_to_box (solid 2 3 (9, 9, 9)) 4 4 CropToFill (255, 255, 255) point_filter True = Inr out \<and>
     image_size out = (4, 4) \<and>
     pixel out 1 2 = (9, 9, 9) \<and> pixel out 2 0 = (0, 0, 0) \<and> pixel out 3 3 = (0, 0, 0)"
proof -
  let ?img = "solid 2 3 (9, 9, 9)"
  have h: "0 < width ?img" "0 < height ?img" "width ?img \<le> 4" "height ?img \<le> 4"
    "width ?img < 2 ^ 53" "height ?img < 2 ^ 53"
    by (simp_all add: solid_simps)
  from resize_to_box_crop_small_image [OF h, of "(255, 255, 255)" point_filter]
  obtain out where
    run: "resize_to_box ?img 4 4 CropToFill (255, 255, 255) point_filter True = Inr out" and
    osz: "image_size out = (4, 4)" and
    px: "\<forall>x y. in_box (0, 0) (4, 4) x y \<longrightarrow>
        pixel out x y = (if x < width ?img \<and> y < height ?img then pixel ?img x y else (0, 0, 0))"
    by blast
  have "pixel out 1 2 = (9, 9, 9)" "pixel out 2 0 = (0, 0, 0)" "pixel out 3 3 = (0, 0, 0)"
    using px by (simp_all add: in_box_def solid_simps)
  with run osz show ?thesis by blast
qed



text \<open>
  C5.  In a contact sheet of images of non-negative size, with cols >= 1, grid_gap >= 0
  and margin >= 0, the boxes in which two different images are pasted (paste offset,
  image size) share no pixel.
\<close>

theorem contact_sheet_boxes_disjoint:
  assumes "contact_sheet imgs cols grid_gap margin sheet_w sheet_h bg_rgb = Inr res"
    and "\<forall>im\<in>set imgs. 0 \<le> width im \<and> 0 \<le> height im"
    and "1 \<le> cols" and "0 \<le> grid_gap" and "0 \<le> margin"
    and "i < length imgs" and "j < length imgs" and "i \<noteq> j"
  shows "\<not> (in_box (offsets res ! i) (image_size (imgs ! i)) x y \<and>
            in_box (offsets res ! j) (image_size (imgs ! j)) x y)"
proof
  assume both: "in_box (offsets res ! i) (image_size (imgs ! i)) x y \<and>
            in_box (offsets res ! j) (image_size (imgs ! j)) x y"
  define cw where "cw = cell_w res"
  define ch where "ch = cell_h res"
  have cwm: "cw = Max (width ` set imgs)" and chm: "ch = Max (height ` set imgs)"
    using contact_sheet_Inr(3,4) [OF assms(1)] by (simp_all add: cw_def ch_def)
  have ne: "imgs \<noteq> []" using assms(6) by auto
  have cw0: "0 \<le> cw" and ch0: "0 \<le> ch"
    using ne assms(2) by (simp_all add: cwm chm Max_nonneg)
  have box: "in_box (centered_offset cols grid_gap margin cw ch k (imgs ! k)) (image_size (imgs ! k)) x y
      \<and> width (imgs ! k) \<le> cw \<and> height (imgs ! k) \<le> ch"
    if k: "k < length imgs" and b: "in_box (offsets res ! k) (image_size (imgs ! k)) x y" for k
  proof -
    from k have "imgs ! k \<in> set imgs" by simp
    with assms(2) have nn: "0 \<le> width (imgs ! k)" "0 \<le> height (imgs ! k)" by simp_all
    have le: "width (imgs ! k) \<le> cw" "height (imgs ! k) \<le> ch"
      unfolding cwm chm by (rule cell_covers [OF k])+
    have "offsets res ! k = paste_offset cols grid_gap margin cw ch k (imgs ! k)"
      unfolding cw_def ch_def by (rule contact_sheet_offset [OF assms(1) k])
    also have "\<dots> = centered_offset cols grid_gap margin cw ch k (imgs ! k)"
      using assms(5,4,3) nn le by (rule paste_offset_centered)
    finally show ?thesis using b le by simp
  qed
  from box [OF assms(6)] both have bi:
    "in_box (centered_offset cols grid_gap margin cw ch i (imgs ! i)) (image_size (imgs ! i)) x y"
    "width (imgs ! i) \<le> cw" "height (imgs ! i) \<le> ch" by simp_all
  from box [OF assms(7)] both have bj:
    "in_box (centered_offset cols grid_gap margin cw ch j (imgs ! j)) (image_size (imgs ! j)) x y"
    "width (imgs ! j) \<le> cw" "height (imgs ! j) \<le> ch" by simp_all
  have sx: "0 \<le> cw + grid_gap" "cw \<le> cw + grid_gap" and sy: "0 \<le> ch + grid_gap" "ch \<le> ch + grid_gap"
    using cw0 ch0 assms(4) by simp_all
  have "int i mod cols = int j mod cols"
    using sx in_centered_box(1,2) [OF bi] in_centered_box(1,2) [OF bj] by (rule stripe_unique)
  moreover have "int i div cols = int j div cols"
    using sy in_centered_box(3,4) [OF bi] in_centered_box(3,4) [OF bj] by (rule stripe_unique)
  ultimately have "int i = int j"
    by (metis mult_div_mod_eq)
  with assms(8) show False by simp
qed

theorem contact_sheet_boxes_disjoint_witness:
  "\<exists>res. contact_sheet [solid 300 200 (0, 0, 0), solid 100 100 (0, 0, 0), solid 50 60 (0, 0, 0)]
           2 0 20 None None (255, 255, 255) = Inr res \<and>
     (\<forall>x y. \<not> (in_box (offsets res ! 0) (300, 200) x y \<and> in_box (offsets res ! 1) (100, 100) x y)) \<and>
     (\<forall>x y. \<not> (in_box (offsets res ! 0) (300, 200) x y \<and> in_box (offsets res ! 2) (50, 60) x y))"
proof -
  let ?imgs = "[solid 300 200 (0, 0, 0), solid 100 100 (0, 0, 0), solid 50 60 (0, 0, 0)]"
  have h: "?imgs \<noteq> []" "length ?imgs < 2 ^ 53" "\<forall>im\<in>set ?imgs. 0 \<le> width im \<and> 0 \<le> height im"
    "(1::int) \<le> 2" "(0::int) \<le> 0" "(0::int) \<le> 20" "(None :: int option) = None \<or> (None :: int option) = None"
    by (simp_all add: solid_simps)
  from contact_sheet_auto [OF h, of "(255, 255, 255)"]
  obtain res where run: "contact_sheet ?imgs 2 0 20 None None (255, 255, 255) = Inr res" by blast
  have "\<not> (in_box (offsets res ! 0) (image_size (?imgs ! 0)) x y \<and>
           in_box (offsets res ! 1) (image_size (?imgs ! 1)) x y)" for x y
    by (rule contact_sheet_boxes_disjoint [OF run h(3,4,5,6)]) simp_all
  moreover have "\<not> (in_box (offsets res ! 0) (image_size (?imgs ! 0)) x y \<and>
           in_box (offsets res ! 2) (image_size (?imgs ! 2)) x y)" for x y
    by (rule contact_sheet_boxes_disjoint [OF run h(3,4,5,6)]) simp_all
  ultimately show ?thesis using run
    by (intro exI [of _ res]) (simp add: image_size_def solid_simps)
qed

text \<open>
  C6.  In a contact sheet of images of non-negative size, with cols >= 1, grid_gap >= 0
  and margin >= 0, no image is larger than the cell (the cell is the maximum over the
  images entering the grid, caption bands included), so neither centring offset
  ox = x + (cell_w - im.width) // 2, oy = y + (cell_h - im.height) // 2 is negative and
  the image is pasted at (ox, oy): the branch that falls back to the cell's corner
  (x, y) is never taken.
\<close>

theorem contact_sheet_offsets_nonneg:
  assumes "contact_sheet imgs cols grid_gap margin sheet_w sheet_h bg_rgb = Inr res"
    and "\<forall>im\<in>set imgs. 0 \<le> width im \<and> 0 \<le> height im"
    and "1 \<le> cols" and "0 \<le> grid_gap" and "0 \<le> margin"
    and "i < length imgs"
  shows "width (imgs ! i) \<le> cell_w res \<and> height (imgs ! i) \<le> cell_h res \<and>
     0 \<le> fst (centered_offset cols grid_gap margin (cell_w res) (cell_h res) i (imgs ! i)) \<and>
     0 \<le> snd (centered_offset cols grid_gap margin (cell_w res) (cell_h res) i (imgs ! i)) \<and>
     offsets res ! i = centered_offset cols grid_gap margin (cell_w res) (cell_h res) i (imgs ! i) \<and>
     centered_offset cols grid_gap margin (cell_w res) (cell_h res) i (imgs ! i) =
       (fst (cell_origin cols grid_gap margin (cell_w res) (cell_h res) i)
          + (cell_w res - width (imgs ! i)) div 2,
        snd (cell_origin cols grid_gap margin (cell_w res) (cell_h res) i)
          + (cell_h res - height (imgs ! i)) div 2)"
proof -
  from assms(6) have "imgs ! i \<in> set imgs" by simp
  with assms(2) have nn: "0 \<le> width (imgs ! i)" "0 \<le> height (imgs ! i)" by simp_all
  have le: "width (imgs ! i) \<le> cell_w res" "height (imgs ! i) \<le> cell_h res"
    unfolding contact_sheet_Inr(3,4) [OF assms(1)] by (rule cell_covers [OF assms(6)])+
  have "offsets res ! i = paste_offset cols grid_gap margin (cell_w res) (cell_h res) i (imgs ! i)"
    by (rule contact_sheet_offset [OF assms(1,6)])
  also have "\<dots> = centered_offset cols grid_gap margin (cell_w res) (cell_h res) i (imgs ! i)"
    using assms(5,4,3) nn le by (rule paste_offset_centered)
  finally have "offsets res ! i =
    centered_offset cols grid_gap margin (cell_w res) (cell_h res) i (imgs ! i)" .
  moreover note centered_offset_nonneg [OF assms(5,4,3) nn le, of i] le
  ultimately show ?thesis by (simp add: centered_offset_def)
qed

theorem contact_sheet_offsets_nonneg_witness:
  "\<exists>res. contact_sheet [solid 300 200 (0, 0, 0), solid 100 100 (0, 0, 0)]
           1 0 0 (Some 50) (Some 50) (255, 255, 255) = Inr res \<and>
     offsets res ! 1 = centered_offset 1 0 0 (cell_w res) (cell_h res) 1 (solid 100 100 (0, 0, 0)) \<and>
     0 \<le> fst (offsets res ! 1) \<and> 0 \<le> snd (offsets res ! 1) \<and> too_small_warning res"
proof -
  let ?imgs = "[solid 300 200 (0, 0, 0), solid 100 100 (0, 0, 0)]"
  define res where "res = \<lparr>cell_w = 300, cell_h = 200, rows = 2, sheet_W = 50, sheet_H = 50,
      too_small_warning = True,
      offsets = map (\<lambda>(i, im). paste_offset 1 0 0 300 200 i im) (enumerate 0 ?imgs),
      sheet = fold (\<lambda>(im, pos) s. image_paste s im pos)
        (zip ?imgs (map (\<lambda>(i, im). paste_offset 1 0 0 300 200 i im) (enumerate 0 ?imgs)))
        (solid 50 50 (255, 255, 255))\<rparr>"
  have f2: "fl64 2 = 2" by code_simp
  have run: "contact_sheet ?imgs 1 0 0 (Some 50) (Some 50) (255, 255, 255) = Inr res"
    by (simp add: contact_sheet_def py_max_def bind_err_def truediv_def Let_def f2 math_ceil_def
        solid_simps image_new_Inr res_def)
  have h: "\<forall>im\<in>set ?imgs. 0 \<le> width im \<and> 0 \<le> height im" "(1::int) \<le> 1" "(0::int) \<le> 0"
    "(1::nat) < length ?imgs"
    by (simp_all add: solid_simps)
  from contact_sheet_offsets_nonneg [OF run h(1,2,3,3,4)]
  have a: "offsets res ! 1 = centered_offset 1 0 0 (cell_w res) (cell_h res) 1 (?imgs ! 1)"
    and b: "0 \<le> fst (centered_offset 1 0 0 (cell_w res) (cell_h res) 1 (?imgs ! 1))"
    and c: "0 \<le> snd (centered_offset 1 0 0 (cell_w res) (cell_h res) 1 (?imgs ! 1))"
    by blast+
  from b c have "0 \<le> fst (offsets res ! 1)" "0 \<le> snd (offsets res ! 1)"
    by (simp_all only: a)
  moreover from a have "offsets res ! 1 =
      centered_offset 1 0 0 (cell_w res) (cell_h res) 1 (solid 100 100 (0, 0, 0))"
    by simp
  moreover have "too_small_warning res" by (simp add: res_def)
  ultimately show ?thesis using run by blast
qed

text \<open>
  C7.  parse_size maps a text of the form WIDTHxHEIGHT, two positive integers in
  decimal around the letter x, its capital or the multiplication sign U+00D7, to the
  pair (w, h).  It returns a pair exactly when the text, lowered and with the sign
  replaced, splits at x into two parts that int() reads as positive integers; a text
  that does not split into exactly two parts, a part that is not an integer literal,
  and an integer that is not positive each raise ValueError (the error the
  specification calls ConfigParseError).  The text 1024, U+00D7, 768 parses to
  (1024, 768), and the text abc raises the error.
\<close>

theorem parse_size_spec:
  "parse_size (''1024'' @ [mult_sign] @ ''768'') = Inr (1024, 768) \<and>
   parse_size ''abc'' = Inl (ValueError BadFormat) \<and>
   (0 < w \<and> 0 < h \<and> (sep = CHR ''x'' \<or> sep = CHR ''X'' \<or> sep = mult_sign) \<longrightarrow>
      parse_size (decimal w @ [sep] @ decimal h) = Inr (w, h)) \<and>
   (parse_size inp = Inr (tw, th) \<longleftrightarrow>
      (\<exists>a b. size_parts inp = [a, b] \<and> py_int (py_strip a) = Inr tw \<and>
             py_int (py_strip b) = Inr th \<and> 0 < tw \<and> 0 < th)) \<and>
   (length (size_parts inp) \<noteq> 2 \<longrightarrow> parse_size inp = Inl (ValueError BadFormat)) \<and>
   (size_parts inp = [a, b] \<and> (py_int (py_strip a) = Inl e \<or> py_int (py_strip b) = Inl e) \<longrightarrow>
      parse_size inp = Inl (ValueError InvalidLiteral)) \<and>
   (size_parts inp = [a, b] \<and> py_int (py_strip a) = Inr n \<and> py_int (py_strip b) = Inr m \<and>
      (n \<le> 0 \<or> m \<le> 0) \<longrightarrow> parse_size inp = Inl (ValueError NotPositive))"
proof (intro conjI impI)
  show "parse_size (''1024'' @ [mult_sign] @ ''768'') = Inr (1024, 768)" by code_simp
  show "parse_size ''abc'' = Inl (ValueError BadFormat)" by code_simp
  show "parse_size (decimal w @ [sep] @ decimal h) = Inr (w, h)"
    if "0 < w \<and> 0 < h \<and> (sep = CHR ''x'' \<or> sep = CHR ''X'' \<or> sep = mult_sign)"
    using that by (intro parse_size_decimal) simp_all
  show "parse_size inp = Inr (tw, th) \<longleftrightarrow>
      (\<exists>a b. size_parts inp = [a, b] \<and> py_int (py_strip a) = Inr tw \<and>
             py_int (py_strip b) = Inr th \<and> 0 < tw \<and> 0 < th)"
    by (rule parse_size_cases)
  show "parse_size inp = Inl (ValueError BadFormat)" if "length (size_parts inp) \<noteq> 2"
    using that by (simp add: parse_size_def)
  show "parse_size inp = Inl (ValueError InvalidLiteral)"
    if "size_parts inp = [a, b] \<and> (py_int (py_strip a) = Inl e \<or> py_int (py_strip b) = Inl e)"
    using that
    by (cases "py_int (py_strip a)"; cases "py_int (py_strip b)")
      (auto simp add: parse_size_def bind_err_def dest: py_int_error)
  show "parse_size inp = Inl (ValueError NotPositive)"
    if "size_parts inp = [a, b] \<and> py_int (py_strip a) = Inr n \<and> py_int (py_strip b) = Inr m \<and>
      (n \<le> 0 \<or> m \<le> 0)"
    using that by (auto simp add: parse_size_def bind_err_def)
qed

theorem parse_size_spec_witness:
  "parse_size (decimal 1920 @ [CHR ''X''] @ decimal 1080) = Inr (1920, 1080) \<and>
   parse_size ''1x2x3'' = Inl (ValueError BadFormat) \<and>
   parse_size ''axb'' = Inl (ValueError InvalidLiteral) \<and>
   parse_size ''10x-3'' = Inl (ValueError NotPositive)"
proof -
  have p3: "length (size_parts ''1x2x3'') \<noteq> 2" by code_simp
  have pa: "size_parts ''axb'' = [''a'', ''b'']"
    "py_int (py_strip ''a'') = Inl (ValueError InvalidLiteral)" by code_simp+
  have pn: "size_parts ''10x-3'' = [''10'', ''-3'']"
    "py_int (py_strip ''10'') = Inr 10" "py_int (py_strip ''-3'') = Inr (- 3)" by code_simp+
  have "parse_size (decimal 1920 @ [CHR ''X''] @ decimal 1080) = Inr (1920, 1080)"
    using parse_size_spec [where w = 1920 and h = 1080 and sep = "CHR ''X''"] by simp
  moreover have "parse_size ''1x2x3'' = Inl (ValueError BadFormat)"
    using parse_size_spec [where inp = "''1x2x3''"] p3 by blast
  moreover have "parse_size ''axb'' = Inl (ValueError InvalidLiteral)"
    using parse_size_spec [where inp = "''axb''" and a = "''a''" and b = "''b''"
        and e = "ValueError InvalidLiteral"] pa by blast
  moreover have "parse_size ''10x-3'' = Inl (ValueError NotPositive)"
    using parse_size_spec [where inp = "''10x-3''" and a = "''10''" and b = "''-3''"
        and n = 10 and m = "- 3"] pn by simp
  ultimately show ?thesis by blast
qed

text \<open>
  C8.  The two size fields at a text that does not parse (abc): the target-canvas field
  shows the error and goes on with 1024 x 768; the sheet-size field goes on with
  2480 x 3508 and shows nothing.
\<close>

theorem size_fields_at_abc:
  "target_canvas_input ''abc'' = ((1024, 768), [ValueError BadFormat]) \<and>
   sheet_size_input ''abc'' = ((2480, 3508), [])"
  by code_simp

text \<open>
  C9.  With no image entering the grid the contact-sheet block computes no geometry:
  max() of the empty sequence of widths raises ValueError, whatever the columns, gap,
  margin and sheet size are.
\<close>

theorem contact_sheet_empty_rejected:
  "contact_sheet [] cols grid_gap margin sheet_w sheet_h bg_rgb = Inl (ValueError EmptySequence)"
  by (simp add: contact_sheet_def py_max_def bind_err_def)

end
